theory Spec2Isabelle
  imports
    Main
    "HOL-Library.Word"
    "HOL-Library.Char_ord"
    "HOL-Library.List_Lexorder"
    "HOL-Library.Sublist"
    "HOL-Library.AList"
    "HOL-Library.Multiset"
begin

unbundle bit_operations_syntax

section \<open>Data model\<close>

text \<open>
  The development embeds \<^verbatim>\<open>find_similar_images\<close> of \<^verbatim>\<open>image_comparator.py\<close> and
  \<^verbatim>\<open>ScanWorker\<close> of \<^verbatim>\<open>main.py\<close>.

  Paths and file names are \<open>string\<close>s (byte lists; on UTF-8 the byte-wise lexicographic
  order of \<open>HOL-Library.List_Lexorder\<close> agrees with Python's code-point order).
  A Python \<^verbatim>\<open>dict\<close> keeps insertion order and overwrites in place, which is what
  \<open>AList.update\<close> does on an association list; \<open>map_of\<close> is the lookup.
  A fingerprint is the fixed-length bit pattern held by an \<^verbatim>\<open>ImageHash\<close>: a word of
  \<open>LENGTH('h)\<close> bits, and the \<^verbatim>\<open>-\<close> of two \<^verbatim>\<open>ImageHash\<close> values counts the positions
  where they differ.
\<close>

definition hamming :: "'h::len word \<Rightarrow> 'h word \<Rightarrow> nat" where
  "hamming a b = length (filter (\<lambda>n. bit a n \<noteq> bit b n) [0..<LENGTH('h)])"

text \<open>
  Everything the function reads from outside: \<^verbatim>\<open>os.path.isdir\<close>, \<^verbatim>\<open>os.listdir\<close>
  (\<open>Inl e\<close> is an \<^verbatim>\<open>OSError\<close> with text \<open>e\<close>) and the body of the \<^verbatim>\<open>try\<close> block of the
  hashing loop, \<^verbatim>\<open>Image.open\<close>, \<^verbatim>\<open>convert\<close> and \<^verbatim>\<open>imagehash.phash\<close> with the given
  \<^verbatim>\<open>hash_size\<close> (\<open>None\<close> is any exception raised there).
\<close>

record 'f world =
  isdir :: "string \<Rightarrow> bool"
  listdir :: "string \<Rightarrow> string + string list"
  image_phash :: "string \<Rightarrow> int \<Rightarrow> 'f option"

text \<open>
  The status texts handed to the progress callback, one constructor for each f-string of
  the source, with the values it interpolates:
  \<^item> \<open>FolderNotFound p\<close>: \<^verbatim>\<open>Erro: Pasta nao encontrada em {p}\<close>
  \<^item> \<open>ListingFailed e\<close>: \<^verbatim>\<open>Erro ao listar diretorio: {e}\<close>
  \<^item> \<open>NoSupportedFiles\<close>: \<^verbatim>\<open>Nenhum arquivo de imagem suportado encontrado.\<close>
  \<^item> \<open>HashingStart n\<close>: \<^verbatim>\<open>Calculando hashes para {n} imagens...\<close>
  \<^item> \<open>HashingStep k n\<close>: \<^verbatim>\<open>Calculando hash: {k}/{n}\<close>
  \<^item> \<open>NothingProcessed\<close>: \<^verbatim>\<open>Nenhuma imagem pode ser processada.\<close>
  \<^item> \<open>ComparingPairs k n\<close>: \<^verbatim>\<open>Comparando pares: {k}/{n}\<close>
  \<^item> \<open>Concluded g\<close>: \<^verbatim>\<open>Concluido. Encontrados {g} grupos de imagens similares.\<close>
\<close>

datatype message =
    FolderNotFound string
  | ListingFailed string
  | NoSupportedFiles
  | HashingStart nat
  | HashingStep nat nat
  | NothingProcessed
  | ComparingPairs nat nat
  | Concluded nat

text \<open>
  What one run does, in the order it does it: \<open>Progress current total msg\<close> is one call
  of \<^verbatim>\<open>progress_callback\<close>; \<open>OpenImage p\<close> is one pass through the \<^verbatim>\<open>try\<close> block for
  path \<open>p\<close>; \<open>Compare a b\<close> is one evaluation of \<^verbatim>\<open>hashes[a] - hashes[b]\<close>.
  Output of \<^verbatim>\<open>print\<close> is not recorded.
\<close>

datatype action =
    Progress nat nat message
  | OpenImage string
  | Compare string string

datatype py_error = KeyError | IndexError

type_synonym 'h hashes = "(string \<times> 'h word) list"

type_synonym adjacency = "(string \<times> string list) list"

type_synonym groups = "(string \<times> string list) list"

section \<open>Strings and paths\<close>

text \<open>
  \<^verbatim>\<open>str.lower\<close> on the bytes of a name: the ASCII capitals are mapped to their small
  letters and every other byte is kept. The extension test below looks for a suffix of
  ASCII bytes only, and no character outside ASCII has a lower-case form that ends in one
  of the letters of an extension, so this agrees with Python on which names match.
\<close>

definition lower_char :: "char \<Rightarrow> char" where
  "lower_char c =
     (case map_of (zip ''ABCDEFGHIJKLMNOPQRSTUVWXYZ'' ''abcdefghijklmnopqrstuvwxyz'') c of
        None \<Rightarrow> c
      | Some l \<Rightarrow> l)"

definition lower :: "string \<Rightarrow> string" where
  "lower s = map lower_char s"

text \<open>\<^verbatim>\<open>s.endswith(t)\<close> for one suffix, and for a tuple of suffixes.\<close>

definition endswith1 :: "string \<Rightarrow> string \<Rightarrow> bool" where
  "endswith1 s t = (length t \<le> length s \<and> drop (length s - length t) s = t)"

definition endswith :: "string \<Rightarrow> string list \<Rightarrow> bool" where
  "endswith s ts = list_ex (endswith1 s) ts"

definition supported_formats :: "string list" where
  "supported_formats = [''.png'', ''.jpg'', ''.jpeg'', ''.bmp'', ''.gif'', ''.tiff'', ''.webp'']"

text \<open>\<^verbatim>\<open>os.path.join(a, b)\<close> of \<^verbatim>\<open>posixpath\<close>, for two arguments.\<close>

definition path_join :: "string \<Rightarrow> string \<Rightarrow> string" where
  "path_join a b =
     (if b \<noteq> [] \<and> hd b = CHR ''/'' then b
      else if a = [] \<or> last a = CHR ''/'' then a @ b
      else a @ CHR ''/'' # b)"

section \<open>The stages of \<^verbatim>\<open>find_similar_images\<close>\<close>

subsection \<open>Candidate files (source lines 41 to 43)\<close>

definition is_candidate :: "string \<Rightarrow> bool" where
  "is_candidate filename = endswith (lower filename) supported_formats"

definition image_files_of :: "string \<Rightarrow> string list \<Rightarrow> string list" where
  "image_files_of folder_path all_files =
     map (path_join folder_path) (filter is_candidate all_files)"

subsection \<open>Hashing loop (source lines 57 to 72)\<close>

text \<open>
  The loop state is \<open>(hashes, processed_count)\<close>; the actions of the iterations are
  returned beside it. \<open>cb\<close> says whether a progress callback was given.
\<close>

fun hashing_loop ::
  "'h::len word world \<Rightarrow> int \<Rightarrow> bool \<Rightarrow> nat \<Rightarrow> string list \<Rightarrow> 'h hashes \<times> nat
     \<Rightarrow> ('h hashes \<times> nat) \<times> action list" where
  "hashing_loop w hash_size cb total_images [] st = (st, [])"
| "hashing_loop w hash_size cb total_images (img_path # rest) (hashes, processed_count) =
     (let hashes' = (case image_phash w img_path hash_size of
                       Some hash_val \<Rightarrow> AList.update img_path hash_val hashes
                     | None \<Rightarrow> hashes);
          processed_count' = processed_count + 1;
          ev = (if cb then [Progress processed_count' (total_images * 2)
                              (HashingStep processed_count' total_images)]
                else []);
          (st, tr) = hashing_loop w hash_size cb total_images rest (hashes', processed_count')
      in (st, OpenImage img_path # ev @ tr))"

subsection \<open>Similarity graph (source lines 82 to 104)\<close>

definition list_get :: "'a list \<Rightarrow> nat \<Rightarrow> py_error + 'a" where
  "list_get xs i = (if i < length xs then Inr (xs ! i) else Inl IndexError)"

definition dict_get :: "('k \<times> 'v) list \<Rightarrow> 'k \<Rightarrow> py_error + 'v" where
  "dict_get d k = (case map_of d k of None \<Rightarrow> Inl KeyError | Some v \<Rightarrow> Inr v)"

text \<open>\<^verbatim>\<open>adj[a].append(b)\<close> on a \<^verbatim>\<open>defaultdict(list)\<close>: a missing key starts from \<^verbatim>\<open>[]\<close>.\<close>

definition adj_append :: "adjacency \<Rightarrow> string \<Rightarrow> string \<Rightarrow> adjacency" where
  "adj_append adj a b =
     AList.update a ((case map_of adj a of None \<Rightarrow> [] | Some ns \<Rightarrow> ns) @ [b]) adj"

text \<open>
  \<^verbatim>\<open>hashes[img_paths[i]] - hashes[img_paths[j]]\<close>, with the two paths it was computed
  for; an index out of range or a missing key raises.
\<close>

definition pair_distance ::
  "'h::len hashes \<Rightarrow> string list \<Rightarrow> nat \<Rightarrow> nat \<Rightarrow> py_error + (string \<times> string \<times> nat)" where
  "pair_distance hashes img_paths i j =
     (case list_get img_paths i of Inl e \<Rightarrow> Inl e | Inr a \<Rightarrow>
      case dict_get hashes a of Inl e \<Rightarrow> Inl e | Inr ha \<Rightarrow>
      case list_get img_paths j of Inl e \<Rightarrow> Inl e | Inr b \<Rightarrow>
      case dict_get hashes b of Inl e \<Rightarrow> Inl e | Inr hb \<Rightarrow>
        Inr (a, b, hamming ha hb))"

text \<open>
  The inner loop over \<open>j\<close>, state \<open>(adj, comparison_count)\<close>. An exception ends the loop
  and is returned with the actions done so far.
\<close>

fun compare_inner ::
  "'h::len hashes \<Rightarrow> int \<Rightarrow> string list \<Rightarrow> nat \<Rightarrow> nat list \<Rightarrow> adjacency \<times> nat
     \<Rightarrow> action list \<times> (py_error + adjacency \<times> nat)" where
  "compare_inner hashes similarity_threshold img_paths i [] st = ([], Inr st)"
| "compare_inner hashes similarity_threshold img_paths i (j # js) (adj, comparison_count) =
     (case pair_distance hashes img_paths i j of
        Inl e \<Rightarrow> ([], Inl e)
      | Inr (a, b, distance) \<Rightarrow>
          let adj' = (if int distance \<le> similarity_threshold
                      then adj_append (adj_append adj a b) b a
                      else adj);
              (tr, r) = compare_inner hashes similarity_threshold img_paths i js
                          (adj', comparison_count + 1)
          in (Compare a b # tr, r))"

text \<open>The outer loop over \<open>i\<close>, which reports progress before each inner loop.\<close>

fun compare_outer ::
  "'h::len hashes \<Rightarrow> int \<Rightarrow> bool \<Rightarrow> nat \<Rightarrow> nat \<Rightarrow> string list \<Rightarrow> nat list
     \<Rightarrow> adjacency \<times> nat \<Rightarrow> action list \<times> (py_error + adjacency \<times> nat)" where
  "compare_outer hashes similarity_threshold cb total_images total_comparisons_possible
       img_paths [] st = ([], Inr st)"
| "compare_outer hashes similarity_threshold cb total_images total_comparisons_possible
       img_paths (i # is) (adj, comparison_count) =
     (let ev = (if cb then [Progress (total_images + comparison_count)
                              (total_images + total_comparisons_possible)
                              (ComparingPairs comparison_count total_comparisons_possible)]
                else []);
          (tr1, r1) = compare_inner hashes similarity_threshold img_paths i
                        [i + 1 ..< length img_paths] (adj, comparison_count)
      in case r1 of
           Inl e \<Rightarrow> (ev @ tr1, Inl e)
         | Inr st' \<Rightarrow>
             let (tr2, r2) = compare_outer hashes similarity_threshold cb total_images
                               total_comparisons_possible img_paths is st'
             in (ev @ tr1 @ tr2, r2))"

definition build_graph ::
  "'h::len hashes \<Rightarrow> int \<Rightarrow> bool \<Rightarrow> nat \<Rightarrow> action list \<times> (py_error + adjacency \<times> nat)" where
  "build_graph hashes similarity_threshold cb total_images =
     (let img_paths = map fst hashes;
          num_hashed_images = length img_paths;
          total_comparisons_possible = num_hashed_images * (num_hashed_images - 1) div 2
      in compare_outer hashes similarity_threshold cb total_images total_comparisons_possible
           img_paths [0 ..< num_hashed_images] ([], 0))"

subsection \<open>Connected components (source lines 108 to 134)\<close>

text \<open>The \<^verbatim>\<open>for v in adj[u]\<close> loop, state \<open>(visited, q)\<close>.\<close>

fun visit_neighbours :: "'a list \<Rightarrow> 'a set \<times> 'a list \<Rightarrow> 'a set \<times> 'a list" where
  "visit_neighbours [] st = st"
| "visit_neighbours (v # vs) (visited, q) =
     (if v \<notin> visited then visit_neighbours vs (insert v visited, q @ [v])
      else visit_neighbours vs (visited, q))"

text \<open>
  All images that occur in some adjacency list. Only they can ever be marked by the
  traversal, which is why it stops.
\<close>

definition all_neighbours :: "('a \<times> 'a list) list \<Rightarrow> 'a set" where
  "all_neighbours adj = (\<Union>ns \<in> snd ` set adj. set ns)"

lemma visit_neighbours_result:
  "visit_neighbours ns (visited, q) = (visited', q') \<Longrightarrow>
     visited' = visited \<union> set ns \<and>
     (\<exists>new. q' = q @ new \<and> set new = set ns - visited \<and> distinct new)"
proof (induction ns arbitrary: visited q)
  case Nil
  then show ?case by simp
next
  case (Cons v vs)
  show ?case
  proof (cases "v \<in> visited")
    case True
    with Cons.prems have "visit_neighbours vs (visited, q) = (visited', q')" by simp
    from Cons.IH [OF this] obtain new where
      v': "visited' = visited \<union> set vs" and
      q': "q' = q @ new" and
      new: "set new = set vs - visited" "distinct new"
      by blast
    have "visited' = visited \<union> set (v # vs)" using v' True by auto
    moreover have "set new = set (v # vs) - visited" using new True by auto
    ultimately show ?thesis using q' new(2) by blast
  next
    case False
    with Cons.prems have "visit_neighbours vs (insert v visited, q @ [v]) = (visited', q')"
      by simp
    from Cons.IH [OF this] obtain new where
      v': "visited' = insert v visited \<union> set vs" and
      q': "q' = (q @ [v]) @ new" and
      new: "set new = set vs - insert v visited" "distinct new"
      by blast
    have 1: "q' = q @ (v # new)" using q' by simp
    have 2: "set (v # new) = set (v # vs) - visited" using new False by auto
    have 3: "distinct (v # new)" using new by auto
    have 4: "visited' = visited \<union> set (v # vs)" using v' by auto
    show ?thesis using 1 2 3 4 by blast
  qed
qed

text \<open>
  The \<^verbatim>\<open>while q\<close> loop, state \<open>(q, visited, current_group)\<close>; it returns the visited set
  and the group. It stops because each iteration either marks a neighbour that was not
  yet visited, of which the adjacency holds finitely many, or shortens the queue.
\<close>

function bfs ::
  "('a \<times> 'a list) list \<Rightarrow> 'a list \<Rightarrow> 'a set \<Rightarrow> 'a list \<Rightarrow> 'a set \<times> 'a list" where
  "bfs adj [] visited current_group = (visited, current_group)"
| "bfs adj (u # q) visited current_group =
     (case map_of adj u of
        None \<Rightarrow> bfs adj q visited (current_group @ [u])
      | Some ns \<Rightarrow>
          let (visited', q') = visit_neighbours ns (visited, q)
          in bfs adj q' visited' (current_group @ [u]))"
  by pat_completeness auto

termination
proof (relation "(\<lambda>(adj, q, visited, g). card (all_neighbours adj - visited))
                   <*mlex*> measure (\<lambda>(adj, q, visited, g). length q)")
  show "wf ((\<lambda>(adj, q, visited, g). card (all_neighbours adj - visited))
              <*mlex*> measure (\<lambda>(adj, q, visited, g). length q))"
    by (simp add: wf_mlex)
next
  fix adj :: "('a \<times> 'a list) list" and u q visited and current_group :: "'a list"
  show "((adj, q, visited, current_group @ [u]), (adj, u # q, visited, current_group))
          \<in> (\<lambda>(adj, q, visited, g). card (all_neighbours adj - visited))
              <*mlex*> measure (\<lambda>(adj, q, visited, g). length q)"
    by (simp add: mlex_iff)
next
  fix adj :: "('a \<times> 'a list) list" and u q visited and current_group :: "'a list"
    and ns x visited' q'
  assume look: "map_of adj u = Some ns"
    and x: "x = visit_neighbours ns (visited, q)" "(visited', q') = x"
  then have "visit_neighbours ns (visited, q) = (visited', q')" by simp
  from visit_neighbours_result [OF this] obtain new where
    v': "visited' = visited \<union> set ns" and q': "q' = q @ new" and
    new: "set new = set ns - visited"
    by blast
  have fin: "finite (all_neighbours adj)" by (simp add: all_neighbours_def)
  have ns: "set ns \<subseteq> all_neighbours adj"
    using map_of_SomeD [OF look] by (force simp: all_neighbours_def)
  show "((adj, q', visited', current_group @ [u]), (adj, u # q, visited, current_group))
          \<in> (\<lambda>(adj, q, visited, g). card (all_neighbours adj - visited))
              <*mlex*> measure (\<lambda>(adj, q, visited, g). length q)"
  proof (cases "set ns \<subseteq> visited")
    case True
    then have "set new = {}" "visited' = visited" using new v' by auto
    then have "new = []" "visited' = visited" by simp_all
    then show ?thesis using q' by (simp add: mlex_iff)
  next
    case False
    then obtain v where v: "v \<in> set ns" "v \<notin> visited" by blast
    have "all_neighbours adj - visited' \<subset> all_neighbours adj - visited"
      using v ns v' by blast
    then have "card (all_neighbours adj - visited') < card (all_neighbours adj - visited)"
      using fin by (intro psubset_card_mono) auto
    then show ?thesis by (simp add: mlex_iff)
  qed
qed

text \<open>
  The \<^verbatim>\<open>for img_path in img_paths\<close> loop, state \<open>(visited, similar_groups_final)\<close>.
  \<^verbatim>\<open>min\<close> is applied to a list of two or more elements only.
\<close>

fun extract_groups ::
  "('a::linorder \<times> 'a list) list \<Rightarrow> 'a list \<Rightarrow> 'a set \<times> ('a \<times> 'a list) list
     \<Rightarrow> 'a set \<times> ('a \<times> 'a list) list" where
  "extract_groups adj [] st = st"
| "extract_groups adj (img_path # rest) (visited, similar_groups_final) =
     (if img_path \<notin> visited \<and> map_of adj img_path \<noteq> None then
        let (visited', current_group) = bfs adj [img_path] (insert img_path visited) [];
            similar_groups_final' =
              (if length current_group > 1
               then AList.update (Min (set current_group)) (sort current_group)
                      similar_groups_final
               else similar_groups_final)
        in extract_groups adj rest (visited', similar_groups_final')
      else if img_path \<notin> visited then
        extract_groups adj rest (insert img_path visited, similar_groups_final)
      else extract_groups adj rest (visited, similar_groups_final))"

subsection \<open>The whole function\<close>

text \<open>
  The result is the list of actions of the run and its outcome: \<open>Inl e\<close> if exception
  \<open>e\<close> left the function, \<open>Inr None\<close> if it returned \<^verbatim>\<open>None\<close>, \<open>Inr (Some d)\<close> if it
  returned the dict \<open>d\<close>. The argument \<open>cb\<close> says whether \<^verbatim>\<open>progress_callback\<close> was given;
  a call of it is recorded as a \<open>Progress\<close> action, and the callback is taken to return
  normally. \<open>emit\<close> is \<^verbatim>\<open>if progress_callback: progress_callback(...)\<close>.
\<close>

definition emit :: "bool \<Rightarrow> nat \<Rightarrow> nat \<Rightarrow> message \<Rightarrow> action list" where
  "emit cb current tot msg = (if cb then [Progress current tot msg] else [])"

text \<open>
  Source lines 82 to 142: the graph, the groups, the last progress report.
\<close>

definition group_and_finish ::
  "'h::len hashes \<Rightarrow> int \<Rightarrow> bool \<Rightarrow> nat \<Rightarrow> action list \<times> (py_error + groups option)" where
  "group_and_finish hashes similarity_threshold cb total_images =
     (let img_paths = map fst hashes;
          num_hashed_images = length img_paths;
          total_comparisons_possible = num_hashed_images * (num_hashed_images - 1) div 2;
          total_steps_overall = total_images + total_comparisons_possible;
          (tr, r) = build_graph hashes similarity_threshold cb total_images
      in case r of
           Inl e \<Rightarrow> (tr, Inl e)
         | Inr (adj, comparison_count) \<Rightarrow>
             let (visited, similar_groups_final) = extract_groups adj img_paths ({}, [])
             in (tr @ emit cb total_steps_overall total_steps_overall
                        (Concluded (length similar_groups_final)),
                 Inr (Some similar_groups_final)))"

text \<open>
  Source lines 25 to 78, then the stages above.
\<close>

definition find_similar_images ::
  "'h::len word world \<Rightarrow> string \<Rightarrow> int \<Rightarrow> int \<Rightarrow> bool
     \<Rightarrow> action list \<times> (py_error + groups option)" where
  "find_similar_images w folder_path hash_size similarity_threshold cb =
     (if \<not> isdir w folder_path
      then (emit cb 0 1 (FolderNotFound folder_path), Inr None)
      else case listdir w folder_path of
        Inl e \<Rightarrow> (emit cb 0 1 (ListingFailed e), Inr None)
      | Inr all_files \<Rightarrow>
          let image_files = image_files_of folder_path all_files
          in if image_files = []
             then (emit cb 1 1 NoSupportedFiles, Inr (Some []))
             else
               let total_images = length image_files;
                   ev0 = emit cb 0 (total_images * 2) (HashingStart total_images);
                   ((hashes, processed_count), tr1) =
                     hashing_loop w hash_size cb total_images image_files ([], 0)
               in if hashes = []
                  then (ev0 @ tr1 @ emit cb (total_images * 2) (total_images * 2)
                                      NothingProcessed,
                        Inr (Some []))
                  else
                    let (tr2, r) = group_and_finish hashes similarity_threshold cb total_images
                    in (ev0 @ tr1 @ tr2, r))"

section \<open>\<^verbatim>\<open>ScanWorker\<close> (main.py, lines 14 to 61)\<close>

text \<open>
  The four Qt signals of the worker. \<^verbatim>\<open>error\<close> carries a text made from the exception;
  here it carries the exception.
\<close>

datatype signal =
    ProgressSignal nat nat message
  | ResultsSignal groups
  | ErrorSignal py_error
  | FinishedSignal

text \<open>
  \<^verbatim>\<open>stop()\<close> runs on another thread and only clears \<^verbatim>\<open>_is_running\<close>. The worker reads the
  flag in \<^verbatim>\<open>report_progress\<close> and in \<^verbatim>\<open>run\<close> after the scan, so all that matters of a
  schedule is how many actions of the worker were done when the flag was cleared:
  \<open>stop_at = Some s\<close> says that \<open>s\<close> actions were done (the action at position \<open>s\<close>, if
  any, is the one in flight), \<open>None\<close> that \<^verbatim>\<open>stop()\<close> is never called. \<open>is_running stop_at k\<close>
  is the value of the flag read by the action at position \<open>k\<close>.
\<close>

definition is_running :: "nat option \<Rightarrow> nat \<Rightarrow> bool" where
  "is_running stop_at k = (case stop_at of None \<Rightarrow> True | Some s \<Rightarrow> k < s)"

text \<open>
  \<^verbatim>\<open>report_progress\<close>, applied to the callback calls of a run whose first action has
  position \<open>k\<close>: the progress signal is emitted only while the flag is set.
\<close>

fun report_progress :: "nat option \<Rightarrow> nat \<Rightarrow> action list \<Rightarrow> signal list" where
  "report_progress stop_at k [] = []"
| "report_progress stop_at k (Progress current tot msg # tr) =
     (if is_running stop_at k then [ProgressSignal current tot msg] else [])
       @ report_progress stop_at (k + 1) tr"
| "report_progress stop_at k (OpenImage p # tr) = report_progress stop_at (k + 1) tr"
| "report_progress stop_at k (Compare a b # tr) = report_progress stop_at (k + 1) tr"

text \<open>
  \<^verbatim>\<open>run\<close>: the scan with \<^verbatim>\<open>report_progress\<close> as its callback; then, at position \<open>n\<close>, the
  check before \<^verbatim>\<open>results.emit\<close> or, in the exception handler, before \<^verbatim>\<open>error.emit\<close>; then,
  at position \<open>n + 1\<close>, the check before \<^verbatim>\<open>finished.emit\<close> in the \<^verbatim>\<open>finally\<close> block. The
  value is the list of signals emitted.
\<close>

definition ScanWorker_run ::
  "'h::len word world \<Rightarrow> string \<Rightarrow> int \<Rightarrow> int \<Rightarrow> nat option \<Rightarrow> signal list" where
  "ScanWorker_run w folder_path hash_size similarity_threshold stop_at =
     (let (tr, outcome) = find_similar_images w folder_path hash_size similarity_threshold True;
          n = length tr
      in report_progress stop_at 0 tr
         @ (case outcome of
              Inr (Some similar_groups) \<Rightarrow>
                if is_running stop_at n then [ResultsSignal similar_groups] else []
            | Inr None \<Rightarrow> []
            | Inl e \<Rightarrow> if is_running stop_at n then [ErrorSignal e] else [])
         @ (if is_running stop_at (n + 1) then [FinishedSignal] else []))"

section \<open>What a run did\<close>

text \<open>
  The callback calls, the images opened and the pairs compared, each in order.
\<close>

fun progress_events :: "action list \<Rightarrow> (nat \<times> nat \<times> message) list" where
  "progress_events [] = []"
| "progress_events (Progress c t m # tr) = (c, t, m) # progress_events tr"
| "progress_events (OpenImage p # tr) = progress_events tr"
| "progress_events (Compare a b # tr) = progress_events tr"

fun opened_images :: "action list \<Rightarrow> string list" where
  "opened_images [] = []"
| "opened_images (OpenImage p # tr) = p # opened_images tr"
| "opened_images (Progress c t m # tr) = opened_images tr"
| "opened_images (Compare a b # tr) = opened_images tr"

fun compared_pairs :: "action list \<Rightarrow> (string \<times> string) list" where
  "compared_pairs [] = []"
| "compared_pairs (Compare a b # tr) = (a, b) # compared_pairs tr"
| "compared_pairs (Progress c t m # tr) = compared_pairs tr"
| "compared_pairs (OpenImage p # tr) = compared_pairs tr"

text \<open>
  The events a given callback receives during one scan.
\<close>

definition delivered_events ::
  "'h::len word world \<Rightarrow> string \<Rightarrow> int \<Rightarrow> int \<Rightarrow> (nat \<times> nat \<times> message) list" where
  "delivered_events w folder_path hash_size T =
     progress_events (fst (find_similar_images w folder_path hash_size T True))"

text \<open>
  The phase of an event, read off its status text: the hashing phase reports
  \<open>HashingStart\<close> and \<open>HashingStep\<close>, the comparison phase \<open>ComparingPairs\<close>.
\<close>

definition hashing_phase :: "nat \<times> nat \<times> message \<Rightarrow> bool" where
  "hashing_phase ev =
     (case snd (snd ev) of HashingStart n \<Rightarrow> True | HashingStep k n \<Rightarrow> True | _ \<Rightarrow> False)"

definition comparison_phase :: "nat \<times> nat \<times> message \<Rightarrow> bool" where
  "comparison_phase ev = (case snd (snd ev) of ComparingPairs k n \<Rightarrow> True | _ \<Rightarrow> False)"

text \<open>
  Every hashing-phase event comes before every comparison-phase event.
\<close>

definition phase_ordered :: "(nat \<times> nat \<times> message) list \<Rightarrow> bool" where
  "phase_ordered evs =
     (\<forall>i j. i < length evs \<and> j < length evs \<and> hashing_phase (evs ! i)
            \<and> comparison_phase (evs ! j) \<longrightarrow> i < j)"

text \<open>
  Per-image and per-pair work, and the work begun after the flag was cleared at \<open>s\<close>
  (the action at position \<open>s\<close> itself is in flight and may complete).
\<close>

definition is_work :: "action \<Rightarrow> bool" where
  "is_work a = (case a of OpenImage p \<Rightarrow> True | Compare x y \<Rightarrow> True | Progress c t m \<Rightarrow> False)"

definition work_started_after :: "nat \<Rightarrow> action list \<Rightarrow> action list" where
  "work_started_after s tr = filter is_work (drop (s + 1) tr)"

definition is_results :: "signal \<Rightarrow> bool" where
  "is_results sig = (case sig of ResultsSignal g \<Rightarrow> True | _ \<Rightarrow> False)"

text \<open>
  Cancellation as the specification words it: no new work once the flag is cleared, no
  results signal, and a finished signal all the same.
\<close>

definition cancelled_as_claimed ::
  "'h::len word world \<Rightarrow> string \<Rightarrow> int \<Rightarrow> int \<Rightarrow> nat \<Rightarrow> bool" where
  "cancelled_as_claimed w folder_path hash_size T s =
     (work_started_after s (fst (find_similar_images w folder_path hash_size T True)) = []
      \<and> \<not> list_ex is_results (ScanWorker_run w folder_path hash_size T (Some s))
      \<and> List.member (ScanWorker_run w folder_path hash_size T (Some s)) FinishedSignal)"

section \<open>Notions of the specification\<close>

text \<open>
  The successfully fingerprinted images of a folder, and the similarity graph over them:
  two distinct images are linked when their fingerprints differ in at most \<open>T\<close> bits.
\<close>

definition fingerprinted :: "'h::len word world \<Rightarrow> string \<Rightarrow> int \<Rightarrow> string set" where
  "fingerprinted w folder_path hash_size =
     (case listdir w folder_path of
        Inl e \<Rightarrow> {}
      | Inr all_files \<Rightarrow>
          {p \<in> set (image_files_of folder_path all_files). image_phash w p hash_size \<noteq> None})"

definition similar :: "'h::len word world \<Rightarrow> int \<Rightarrow> int \<Rightarrow> string \<Rightarrow> string \<Rightarrow> bool" where
  "similar w hash_size T a b =
     (\<exists>ha hb. image_phash w a hash_size = Some ha \<and> image_phash w b hash_size = Some hb
              \<and> int (hamming ha hb) \<le> T)"

definition similarity_graph ::
  "'h::len word world \<Rightarrow> string \<Rightarrow> int \<Rightarrow> int \<Rightarrow> (string \<times> string) set" where
  "similarity_graph w folder_path hash_size T =
     {(a, b). a \<in> fingerprinted w folder_path hash_size
            \<and> b \<in> fingerprinted w folder_path hash_size \<and> a \<noteq> b \<and> similar w hash_size T a b}"

text \<open>
  The connected component of \<open>a\<close> in a symmetric graph, the components of a vertex set,
  and those of two or more images.
\<close>

definition component :: "('a \<times> 'a) set \<Rightarrow> 'a \<Rightarrow> 'a set" where
  "component G a = G\<^sup>* `` {a}"

definition components :: "'a set \<Rightarrow> ('a \<times> 'a) set \<Rightarrow> 'a set set" where
  "components V G = {component G a | a. a \<in> V}"

definition large_components ::
  "'h::len word world \<Rightarrow> string \<Rightarrow> int \<Rightarrow> int \<Rightarrow> string set set" where
  "large_components w folder_path hash_size T =
     {C \<in> components (fingerprinted w folder_path hash_size)
             (similarity_graph w folder_path hash_size T). 2 \<le> card C}"

text \<open>
  The entry a group gets: its least member and its sorted member list.
\<close>

definition group_entry :: "'a::linorder set \<Rightarrow> 'a \<times> 'a list" where
  "group_entry C = (Min C, sorted_list_of_set C)"

text \<open>
  A name ends in \<open>ext\<close>, ignoring case; and the paths of the directory entries whose name
  ends, ignoring case, in one of the seven extensions.
\<close>

definition ends_with_ci :: "string \<Rightarrow> string \<Rightarrow> bool" where
  "ends_with_ci name ext = (\<exists>stem tail. name = stem @ tail \<and> lower tail = lower ext)"

definition candidate_paths :: "string \<Rightarrow> string list \<Rightarrow> string set" where
  "candidate_paths folder_path all_files =
     path_join folder_path `
       {name \<in> set all_files.
          \<exists>ext \<in> {''.png'', ''.jpg'', ''.jpeg'', ''.bmp'', ''.gif'', ''.tiff'', ''.webp''}.
            ends_with_ci name ext}"

section \<open>Notions of the proofs\<close>

text \<open>
  One iteration of the hashing loop on the dict.
\<close>

definition hash_step :: "'h::len word world \<Rightarrow> int \<Rightarrow> string \<Rightarrow> 'h hashes \<Rightarrow> 'h hashes" where
  "hash_step w hs p h0 =
     (case image_phash w p hs of Some hash_val \<Rightarrow> AList.update p hash_val h0 | None \<Rightarrow> h0)"

text \<open>
  The edge relation an adjacency dict stands for.
\<close>

definition edges_of :: "('a \<times> 'a list) list \<Rightarrow> ('a \<times> 'a) set" where
  "edges_of adj = {(a, b). \<exists>ns. map_of adj a = Some ns \<and> b \<in> set ns}"

text \<open>
  The test of source line 101 for two keys of \<open>hashes\<close>.
\<close>

definition close_enough :: "'h::len hashes \<Rightarrow> int \<Rightarrow> string \<Rightarrow> string \<Rightarrow> bool" where
  "close_enough hashes T a b =
     (\<exists>ha hb. map_of hashes a = Some ha \<and> map_of hashes b = Some hb \<and> int (hamming ha hb) \<le> T)"

text \<open>
  The pairs of a list in the order the two loops visit them, by structure and by index,
  and the adjacency after the listed pairs were compared.
\<close>

fun pairs_of :: "'a list \<Rightarrow> ('a \<times> 'a) list" where
  "pairs_of [] = []"
| "pairs_of (x # xs) = map (Pair x) xs @ pairs_of xs"

definition index_pairs :: "'a list \<Rightarrow> nat list \<Rightarrow> ('a \<times> 'a) list" where
  "index_pairs ps is =
     concat (map (\<lambda>i. map (\<lambda>j. (ps ! i, ps ! j)) [i + 1 ..< length ps]) is)"

fun link_all :: "'h::len hashes \<Rightarrow> int \<Rightarrow> (string \<times> string) list \<Rightarrow> adjacency \<Rightarrow> adjacency" where
  "link_all h T [] adj = adj"
| "link_all h T ((a, b) # ps) adj =
     link_all h T ps (if close_enough h T a b then adj_append (adj_append adj a b) b a else adj)"

definition the_graph :: "'h::len hashes \<Rightarrow> int \<Rightarrow> adjacency" where
  "the_graph hashes T = link_all hashes T (pairs_of (map fst hashes)) []"

text \<open>
  The progress events of the outer comparison loop.
\<close>

fun outer_events :: "nat \<Rightarrow> nat \<Rightarrow> nat \<Rightarrow> nat list \<Rightarrow> nat \<Rightarrow> (nat \<times> nat \<times> message) list" where
  "outer_events ti tc n [] cc = []"
| "outer_events ti tc n (i # is) cc =
     (ti + cc, ti + tc, ComparingPairs cc tc) # outer_events ti tc n is (cc + (n - Suc i))"

text \<open>
  The invariant of the \<^verbatim>\<open>while q\<close> loop for a traversal from \<open>s\<close> that began with
  \<open>vis0\<close> visited, and the invariant of the loop over \<^verbatim>\<open>img_paths\<close>.
\<close>

definition bfs_inv ::
  "('a \<times> 'a) set \<Rightarrow> 'a \<Rightarrow> 'a set \<Rightarrow> 'a list \<Rightarrow> 'a set \<Rightarrow> 'a list \<Rightarrow> bool" where
  "bfs_inv G s vis0 q vis grp \<longleftrightarrow>
     vis = vis0 \<union> set grp \<union> set q \<and> distinct (grp @ q) \<and>
     (set grp \<union> set q) \<inter> vis0 = {} \<and> set grp \<union> set q \<subseteq> component G s \<and>
     G `` set grp \<subseteq> vis \<and> s \<in> set grp \<union> set q"

definition groups_inv ::
  "('a::linorder \<times> 'a) set \<Rightarrow> 'a set \<Rightarrow> ('a \<times> 'a list) list \<Rightarrow> bool" where
  "groups_inv G vis res \<longleftrightarrow>
     finite vis \<and> G `` vis \<subseteq> vis \<and> distinct (map fst res) \<and>
     set res = {group_entry (component G a) | a. a \<in> vis \<and> 2 \<le> card (component G a)}"

text \<open>
  The fatal path, and the candidate paths, the dict of fingerprints and the groups of a
  run that is not fatal.
\<close>

definition fatal :: "'f world \<Rightarrow> string \<Rightarrow> bool" where
  "fatal w folder_path = (\<not> isdir w folder_path \<or> (\<exists>e. listdir w folder_path = Inl e))"

definition run_images :: "'f world \<Rightarrow> string \<Rightarrow> string list" where
  "run_images w folder_path =
     (case listdir w folder_path of Inl e \<Rightarrow> [] | Inr all_files \<Rightarrow> image_files_of folder_path all_files)"

definition run_hashes :: "'h::len word world \<Rightarrow> string \<Rightarrow> int \<Rightarrow> 'h hashes" where
  "run_hashes w folder_path hash_size =
     fst (fst (hashing_loop w hash_size False 0 (run_images w folder_path) ([], 0)))"

definition run_groups :: "'h::len word world \<Rightarrow> string \<Rightarrow> int \<Rightarrow> int \<Rightarrow> groups" where
  "run_groups w folder_path hash_size T =
     snd (extract_groups (the_graph (run_hashes w folder_path hash_size) T)
            (map fst (run_hashes w folder_path hash_size)) ({}, []))"

section \<open>Concrete runs\<close>

text \<open>
  A folder that does not exist, a folder whose listing fails, and a folder \<open>d\<close> with
  five entries: \<open>a.PNG\<close> and \<open>b.png\<close> differ in one bit of their fingerprints,
  \<open>c.jpg\<close> is far from both, \<open>e.gif\<close> cannot be decoded and \<open>notes.txt\<close> is no image.
\<close>

definition missing_folder :: "64 word world" where
  "missing_folder =
     \<lparr>isdir = (\<lambda>p. False), listdir = (\<lambda>p. Inl ''No such file or directory''),
      image_phash = (\<lambda>p hs. None)\<rparr>"

definition unlistable_folder :: "64 word world" where
  "unlistable_folder =
     \<lparr>isdir = (\<lambda>p. True), listdir = (\<lambda>p. Inl ''Permission denied''),
      image_phash = (\<lambda>p hs. None)\<rparr>"

definition demo_folder :: "64 word world" where
  "demo_folder =
     \<lparr>isdir = (\<lambda>p. p = ''d''),
      listdir = (\<lambda>p. Inr [''b.png'', ''a.PNG'', ''c.jpg'', ''notes.txt'', ''e.gif'']),
      image_phash = (\<lambda>p hs.
        if p = ''d/a.PNG'' then Some 0
        else if p = ''d/b.png'' then Some 1
        else if p = ''d/c.jpg'' then Some 255
        else None)\<rparr>"

text \<open>
  A folder with no image name in it, a folder whose images cannot be decoded, and a dict
  of three fingerprints.
\<close>

definition text_only_folder :: "64 word world" where
  "text_only_folder =
     \<lparr>isdir = (\<lambda>p. True), listdir = (\<lambda>p. Inr [''notes.txt'', ''sub'']),
      image_phash = (\<lambda>p hs. None)\<rparr>"

definition undecodable_folder :: "64 word world" where
  "undecodable_folder =
     \<lparr>isdir = (\<lambda>p. True), listdir = (\<lambda>p. Inr [''broken.png'', ''x.jpeg'']),
      image_phash = (\<lambda>p hs. None)\<rparr>"

definition sample_hashes :: "64 hashes" where
  "sample_hashes = [(''a.png'', 0), (''b.png'', 1), (''c.png'', 255)]"

section \<open>Lemmas\<close>

subsection \<open>Actions and events\<close>

lemma progress_events_append [simp]:
  "progress_events (xs @ ys) = progress_events xs @ progress_events ys"
  by (induction xs rule: progress_events.induct) simp_all

lemma opened_images_append [simp]:
  "opened_images (xs @ ys) = opened_images xs @ opened_images ys"
  by (induction xs rule: opened_images.induct) simp_all

lemma compared_pairs_append [simp]:
  "compared_pairs (xs @ ys) = compared_pairs xs @ compared_pairs ys"
  by (induction xs rule: compared_pairs.induct) simp_all

lemma emit_projections [simp]:
  "opened_images (emit cb c t m) = []" "compared_pairs (emit cb c t m) = []"
  "progress_events (emit cb c t m) = (if cb then [(c, t, m)] else [])"
  by (simp_all add: emit_def)

lemma compared_pairs_map_Compare [simp]:
  "compared_pairs (map (\<lambda>j. Compare (f j) (g j)) js) = map (\<lambda>j. (f j, g j)) js"
  by (induction js) simp_all

lemma opened_images_map_Compare [simp]:
  "opened_images (map (\<lambda>j. Compare (f j) (g j)) js) = []"
  by (induction js) simp_all

lemma progress_events_map_Compare [simp]:
  "progress_events (map (\<lambda>j. Compare (f j) (g j)) js) = []"
  by (induction js) simp_all

subsection \<open>The hashing loop\<close>

lemma hashing_loop_Cons:
  "hashing_loop w hs cb tot (p # ps) (h0, c0) =
     (fst (hashing_loop w hs cb tot ps (hash_step w hs p h0, Suc c0)),
      OpenImage p # emit cb (Suc c0) (tot * 2) (HashingStep (Suc c0) tot)
        @ snd (hashing_loop w hs cb tot ps (hash_step w hs p h0, Suc c0)))"
  by (simp add: Let_def case_prod_beta hash_step_def emit_def)

lemma hashing_loop_count:
  "snd (fst (hashing_loop w hs cb tot ps (h0, c0))) = c0 + length ps"
  by (induction ps arbitrary: h0 c0) (simp_all add: hashing_loop_Cons del: hashing_loop.simps(2))

lemma hashing_loop_opened:
  "opened_images (snd (hashing_loop w hs cb tot ps (h0, c0))) = ps"
  by (induction ps arbitrary: h0 c0) (simp_all add: hashing_loop_Cons del: hashing_loop.simps(2))

lemma hashing_loop_compared:
  "compared_pairs (snd (hashing_loop w hs cb tot ps (h0, c0))) = []"
  by (induction ps arbitrary: h0 c0) (simp_all add: hashing_loop_Cons del: hashing_loop.simps(2))

lemma hashing_loop_progress:
  "progress_events (snd (hashing_loop w hs cb tot ps (h0, c0))) =
     (if cb then map (\<lambda>k. (k, tot * 2, HashingStep k tot)) [Suc c0 ..< Suc (c0 + length ps)]
      else [])"
proof (induction ps arbitrary: h0 c0)
  case Nil
  then show ?case by simp
next
  case (Cons p ps)
  have "[Suc c0 ..< Suc (Suc c0 + length ps)]
          = Suc c0 # [Suc (Suc c0) ..< Suc (Suc c0 + length ps)]"
    by (rule upt_conv_Cons) simp
  moreover have "Suc (c0 + length (p # ps)) = Suc (Suc c0 + length ps)" by simp
  ultimately have "[Suc c0 ..< Suc (c0 + length (p # ps))]
          = Suc c0 # [Suc (Suc c0) ..< Suc (Suc c0 + length ps)]" by metis
  then show ?case
    by (simp add: hashing_loop_Cons Cons.IH del: hashing_loop.simps(2) upt_Suc length_Cons)
qed

lemma hash_step_lookup:
  "map_of (hash_step w hs x h0) p =
     (if p = x \<and> image_phash w x hs \<noteq> None then image_phash w x hs else map_of h0 p)"
  by (auto simp: hash_step_def update_conv' split: option.splits)

lemma hashing_loop_lookup:
  "map_of (fst (fst (hashing_loop w hs cb tot ps (h0, c0)))) p =
     (if p \<in> set ps \<and> image_phash w p hs \<noteq> None then image_phash w p hs else map_of h0 p)"
  by (induction ps arbitrary: h0 c0)
     (auto simp add: hashing_loop_Cons hash_step_lookup simp del: hashing_loop.simps(2))

lemma hashing_loop_distinct:
  "distinct (map fst h0) \<Longrightarrow>
     distinct (map fst (fst (fst (hashing_loop w hs cb tot ps (h0, c0)))))"
proof (induction ps arbitrary: h0 c0)
  case Nil
  then show ?case by simp
next
  case (Cons x ps)
  have "distinct (map fst (hash_step w hs x h0))"
    using Cons.prems by (simp add: hash_step_def distinct_update split: option.splits)
  from Cons.IH [OF this] show ?case
    by (simp add: hashing_loop_Cons del: hashing_loop.simps(2))
qed

lemma hashing_loop_hashes_indep:
  "fst (fst (hashing_loop w hs cb tot ps (h0, c0))) = fst (fst (hashing_loop w hs cb' tot' ps (h0, c0')))"
  by (induction ps arbitrary: h0 c0 c0')
     (simp_all add: hashing_loop_Cons del: hashing_loop.simps(2))

subsection \<open>Enumerating the pairs\<close>

lemma sum_remaining: "sum_list (map (\<lambda>i. n - Suc i) [0 ..< n]) = n * (n - 1) div 2"
proof (induction n)
  case 0
  then show ?case by simp
next
  case (Suc n)
  have "[0 ..< Suc n] = 0 # map Suc [0 ..< n]"
    by (simp add: upt_conv_Cons map_Suc_upt del: upt_Suc)
  then have "sum_list (map (\<lambda>i. Suc n - Suc i) [0 ..< Suc n])
               = n + sum_list (map (\<lambda>i. n - Suc i) [0 ..< n])"
    by (simp add: comp_def del: upt_Suc)
  also have "\<dots> = n + n * (n - 1) div 2" using Suc.IH by simp
  also have "\<dots> = Suc n * (Suc n - 1) div 2"
  proof (cases n)
    case 0
    then show ?thesis by simp
  next
    case (Suc m)
    have "Suc m + Suc m * m div 2 = (2 * Suc m + Suc m * m) div 2" by simp
    also have "\<dots> = Suc (Suc m) * Suc m div 2" by (simp add: algebra_simps)
    finally show ?thesis using Suc by simp
  qed
  finally show ?case .
qed

lemma index_pairs_Cons:
  "index_pairs (x # xs) (map Suc is) = index_pairs xs is"
proof -
  have "\<And>i. map (\<lambda>j. ((x # xs) ! Suc i, (x # xs) ! j)) [Suc i + 1 ..< length (x # xs)]
           = map (\<lambda>j. (xs ! i, xs ! j)) [i + 1 ..< length xs]"
  proof -
    fix i
    have "[Suc i + 1 ..< length (x # xs)] = map Suc [i + 1 ..< length xs]"
      by (simp add: map_Suc_upt)
    then show "map (\<lambda>j. ((x # xs) ! Suc i, (x # xs) ! j)) [Suc i + 1 ..< length (x # xs)]
           = map (\<lambda>j. (xs ! i, xs ! j)) [i + 1 ..< length xs]"
      by (simp add: comp_def)
  qed
  then show ?thesis by (simp add: index_pairs_def comp_def)
qed

lemma index_pairs_all: "index_pairs ps [0 ..< length ps] = pairs_of ps"
proof (induction ps)
  case Nil
  then show ?case by (simp add: index_pairs_def)
next
  case (Cons x xs)
  have upt: "[0 ..< length (x # xs)] = 0 # map Suc [0 ..< length xs]"
    by (simp add: upt_conv_Cons map_Suc_upt del: upt_Suc)
  have "[0 + 1 ..< length (x # xs)] = map Suc [0 ..< length xs]"
    by (simp add: map_Suc_upt del: upt_Suc)
  then have "map (\<lambda>j. ((x # xs) ! 0, (x # xs) ! j)) [0 + 1 ..< length (x # xs)]
               = map (\<lambda>j. (x, xs ! j)) [0 ..< length xs]"
    by (simp add: comp_def del: upt_Suc)
  also have "\<dots> = map (Pair x) (map ((!) xs) [0 ..< length xs])"
    by (simp add: comp_def)
  also have "\<dots> = map (Pair x) xs" by (simp only: map_nth)
  finally have first: "map (\<lambda>j. ((x # xs) ! 0, (x # xs) ! j)) [0 + 1 ..< length (x # xs)]
                      = map (Pair x) xs" .
  have "index_pairs (x # xs) [0 ..< length (x # xs)]
          = map (\<lambda>j. ((x # xs) ! 0, (x # xs) ! j)) [0 + 1 ..< length (x # xs)]
            @ index_pairs (x # xs) (map Suc [0 ..< length xs])"
    unfolding upt by (simp add: index_pairs_def)
  also have "\<dots> = map (Pair x) xs @ index_pairs xs [0 ..< length xs]"
    unfolding first index_pairs_Cons ..
  finally show ?case using Cons.IH by simp
qed

lemma pairs_of_subset: "(a, b) \<in> set (pairs_of xs) \<Longrightarrow> a \<in> set xs \<and> b \<in> set xs"
  by (induction xs) auto

lemma pairs_of_distinct:
  "distinct xs \<Longrightarrow> distinct (pairs_of xs)"
proof (induction xs)
  case Nil
  then show ?case by simp
next
  case (Cons x xs)
  have "distinct (map (Pair x) xs)" using Cons.prems by (simp add: distinct_map inj_on_def)
  moreover have "set (map (Pair x) xs) \<inter> set (pairs_of xs) = {}"
    using Cons.prems pairs_of_subset [of x _ xs] by auto
  ultimately show ?case using Cons by simp
qed

lemma pairs_of_irrefl:
  "distinct xs \<Longrightarrow> (a, b) \<in> set (pairs_of xs) \<Longrightarrow> a \<noteq> b \<and> (b, a) \<notin> set (pairs_of xs)"
proof (induction xs)
  case Nil
  then show ?case by simp
next
  case (Cons x xs)
  show ?case
  proof (cases "(a, b) \<in> set (pairs_of xs)")
    case True
    then have "a \<in> set xs" "b \<in> set xs" using pairs_of_subset by fast+
    with Cons True show ?thesis by auto
  next
    case False
    with Cons.prems have ab: "a = x" "b \<in> set xs" by auto
    then have "(b, a) \<notin> set (pairs_of xs)" using pairs_of_subset [of b a xs] Cons.prems by auto
    with ab Cons.prems show ?thesis by auto
  qed
qed

lemma pairs_of_total:
  "a \<in> set xs \<Longrightarrow> b \<in> set xs \<Longrightarrow> a \<noteq> b \<Longrightarrow>
     (a, b) \<in> set (pairs_of xs) \<or> (b, a) \<in> set (pairs_of xs)"
  by (induction xs) auto

lemma length_pairs_of: "length (pairs_of xs) = length xs * (length xs - 1) div 2"
proof (induction xs)
  case Nil
  then show ?case by simp
next
  case (Cons x xs)
  show ?case
  proof (cases xs)
    case Nil
    then show ?thesis by simp
  next
    case (Cons y ys)
    have "length (y # ys) + length (y # ys) * (length (y # ys) - 1) div 2
            = (2 * length (y # ys) + length (y # ys) * (length (y # ys) - 1)) div 2" by simp
    also have "\<dots> = length (x # y # ys) * (length (x # y # ys) - 1) div 2"
      by (simp add: algebra_simps)
    finally show ?thesis using Cons.IH Cons by simp
  qed
qed

subsection \<open>The comparison loops\<close>

lemma hamming_sym: "hamming a b = hamming b a"
proof -
  have "(\<lambda>n. bit a n \<noteq> bit b n) = (\<lambda>n. bit b n \<noteq> bit a n)" by auto
  then show ?thesis by (simp add: hamming_def)
qed

lemma close_enough_sym: "close_enough h T a b = close_enough h T b a"
  by (auto simp: close_enough_def hamming_sym)

lemma close_enough_code [code]:
  "close_enough h T a b =
     (case map_of h a of
        None \<Rightarrow> False
      | Some ha \<Rightarrow> (case map_of h b of None \<Rightarrow> False | Some hb \<Rightarrow> int (hamming ha hb) \<le> T))"
  by (auto simp: close_enough_def split: option.splits)

lemma map_of_adj_append:
  "map_of (adj_append adj a b) =
     (map_of adj)(a \<mapsto> (case map_of adj a of None \<Rightarrow> [] | Some ns \<Rightarrow> ns) @ [b])"
  by (simp add: adj_append_def update_conv')

lemma edges_of_adj_append: "edges_of (adj_append adj a b) = insert (a, b) (edges_of adj)"
  by (auto simp: edges_of_def map_of_adj_append split: option.splits if_splits)

lemma edges_of_Nil: "edges_of [] = {}"
  by (simp add: edges_of_def)

lemma edges_of_Image:
  "edges_of adj `` {u} = (case map_of adj u of None \<Rightarrow> {} | Some ns \<Rightarrow> set ns)"
  by (auto simp: edges_of_def split: option.splits)

lemma link_all_append: "link_all h T (xs @ ys) adj = link_all h T ys (link_all h T xs adj)"
  by (induction xs arbitrary: adj) auto

lemma edges_of_link_all:
  "edges_of (link_all h T ps adj) =
     edges_of adj \<union> {(a, b). ((a, b) \<in> set ps \<or> (b, a) \<in> set ps) \<and> close_enough h T a b}"
proof (induction ps arbitrary: adj)
  case Nil
  then show ?case by simp
next
  case (Cons x ps)
  obtain a b where x: "x = (a, b)" by (cases x)
  show ?case
  proof (cases "close_enough h T a b")
    case True
    then have "close_enough h T b a" using close_enough_sym by blast
    with True show ?thesis
      unfolding x by (auto simp: Cons.IH edges_of_adj_append)
  next
    case False
    then have "\<not> close_enough h T b a" using close_enough_sym by blast
    with False show ?thesis
      unfolding x by (auto simp: Cons.IH)
  qed
qed

lemma pair_distance_ok:
  assumes "i < length ps" "j < length ps" "map_of h (ps ! i) = Some ha" "map_of h (ps ! j) = Some hb"
  shows "pair_distance h ps i j = Inr (ps ! i, ps ! j, hamming ha hb)"
  using assms by (simp add: pair_distance_def list_get_def dict_get_def)

lemma compare_inner_result:
  assumes "i < length ps" "\<forall>j \<in> set js. j < length ps" "\<forall>p \<in> set ps. map_of h p \<noteq> None"
  shows "compare_inner h T ps i js (adj, cc) =
           (map (\<lambda>j. Compare (ps ! i) (ps ! j)) js,
            Inr (link_all h T (map (\<lambda>j. (ps ! i, ps ! j)) js) adj, cc + length js))"
  using assms(2)
proof (induction js arbitrary: adj cc)
  case Nil
  then show ?case by simp
next
  case (Cons j js)
  have j: "j < length ps" using Cons.prems by simp
  obtain ha where ha: "map_of h (ps ! i) = Some ha" using assms(1,3) by fastforce
  obtain hb where hb: "map_of h (ps ! j) = Some hb" using j assms(3) by fastforce
  have pd: "pair_distance h ps i j = Inr (ps ! i, ps ! j, hamming ha hb)"
    using pair_distance_ok [OF assms(1) j ha hb] .
  have ce: "close_enough h T (ps ! i) (ps ! j) = (int (hamming ha hb) \<le> T)"
    by (simp add: close_enough_def ha hb)
  have rest: "\<forall>j \<in> set js. j < length ps" using Cons.prems by simp
  show ?case
    by (simp add: pd ce Cons.IH [OF rest] Let_def)
qed

lemma compare_outer_Cons:
  assumes "i < length ps" "\<forall>p \<in> set ps. map_of h p \<noteq> None"
  shows "compare_outer h T cb ti tc ps (i # is) (adj, cc) =
     (emit cb (ti + cc) (ti + tc) (ComparingPairs cc tc)
        @ map (\<lambda>j. Compare (ps ! i) (ps ! j)) [i + 1 ..< length ps]
        @ fst (compare_outer h T cb ti tc ps is
                 (link_all h T (map (\<lambda>j. (ps ! i, ps ! j)) [i + 1 ..< length ps]) adj,
                  cc + (length ps - Suc i))),
      snd (compare_outer h T cb ti tc ps is
                 (link_all h T (map (\<lambda>j. (ps ! i, ps ! j)) [i + 1 ..< length ps]) adj,
                  cc + (length ps - Suc i))))"
proof -
  have "\<forall>j \<in> set [i + 1 ..< length ps]. j < length ps" by simp
  from compare_inner_result [OF assms(1) this assms(2)]
  show ?thesis by (simp add: Let_def case_prod_beta emit_def)
qed

lemma compare_outer_result:
  assumes "\<forall>i \<in> set is. i < length ps" "\<forall>p \<in> set ps. map_of h p \<noteq> None"
  shows "snd (compare_outer h T cb ti tc ps is (adj, cc)) =
           Inr (link_all h T (index_pairs ps is) adj,
                cc + sum_list (map (\<lambda>i. length ps - Suc i) is))"
  using assms(1)
proof (induction "is" arbitrary: adj cc)
  case Nil
  then show ?case by (simp add: index_pairs_def)
next
  case (Cons i "is")
  have i: "i < length ps" and rest: "\<forall>i \<in> set is. i < length ps" using Cons.prems by simp_all
  show ?case
    by (simp add: compare_outer_Cons [OF i assms(2)] Cons.IH [OF rest] index_pairs_def
          link_all_append del: compare_outer.simps(2))
qed

lemma compare_outer_compared:
  assumes "\<forall>i \<in> set is. i < length ps" "\<forall>p \<in> set ps. map_of h p \<noteq> None"
  shows "compared_pairs (fst (compare_outer h T cb ti tc ps is (adj, cc))) = index_pairs ps is"
  using assms(1)
proof (induction "is" arbitrary: adj cc)
  case Nil
  then show ?case by (simp add: index_pairs_def)
next
  case (Cons i "is")
  have i: "i < length ps" and rest: "\<forall>i \<in> set is. i < length ps" using Cons.prems by simp_all
  show ?case
    by (simp add: compare_outer_Cons [OF i assms(2)] Cons.IH [OF rest] index_pairs_def
          del: compare_outer.simps(2))
qed

lemma compare_outer_opened:
  assumes "\<forall>i \<in> set is. i < length ps" "\<forall>p \<in> set ps. map_of h p \<noteq> None"
  shows "opened_images (fst (compare_outer h T cb ti tc ps is (adj, cc))) = []"
  using assms(1)
proof (induction "is" arbitrary: adj cc)
  case Nil
  then show ?case by simp
next
  case (Cons i "is")
  have i: "i < length ps" and rest: "\<forall>i \<in> set is. i < length ps" using Cons.prems by simp_all
  show ?case
    by (simp add: compare_outer_Cons [OF i assms(2)] Cons.IH [OF rest]
          del: compare_outer.simps(2))
qed

lemma compare_outer_progress:
  assumes "\<forall>i \<in> set is. i < length ps" "\<forall>p \<in> set ps. map_of h p \<noteq> None"
  shows "progress_events (fst (compare_outer h T cb ti tc ps is (adj, cc))) =
           (if cb then outer_events ti tc (length ps) is cc else [])"
  using assms(1)
proof (induction "is" arbitrary: adj cc)
  case Nil
  then show ?case by simp
next
  case (Cons i "is")
  have i: "i < length ps" and rest: "\<forall>i \<in> set is. i < length ps" using Cons.prems by simp_all
  show ?case
    by (simp add: compare_outer_Cons [OF i assms(2)] Cons.IH [OF rest]
          del: compare_outer.simps(2))
qed

lemma outer_events_bounds:
  "(c, t, m) \<in> set (outer_events ti tc n is cc) \<Longrightarrow>
     ti + cc \<le> c \<and> c \<le> ti + cc + sum_list (map (\<lambda>i. n - Suc i) is) \<and> t = ti + tc
     \<and> (\<exists>k. m = ComparingPairs k tc)"
proof (induction "is" arbitrary: cc)
  case Nil
  then show ?case by simp
next
  case (Cons i "is")
  from Cons.prems consider "(c, t, m) = (ti + cc, ti + tc, ComparingPairs cc tc)"
    | "(c, t, m) \<in> set (outer_events ti tc n is (cc + (n - Suc i)))" by auto
  then show ?case
  proof cases
    case 1
    then show ?thesis by simp
  next
    case 2
    from Cons.IH [OF this] show ?thesis by auto
  qed
qed

lemma outer_events_sorted: "sorted (map fst (outer_events ti tc n is cc))"
proof (induction "is" arbitrary: cc)
  case Nil
  then show ?case by simp
next
  case (Cons i "is")
  have "\<forall>x \<in> set (outer_events ti tc n is (cc + (n - Suc i))). ti + cc \<le> fst x"
  proof
    fix x assume x: "x \<in> set (outer_events ti tc n is (cc + (n - Suc i)))"
    obtain c t m where "x = (c, t, m)" by (cases x)
    with outer_events_bounds [of c t m ti tc n "is" "cc + (n - Suc i)"] x
    show "ti + cc \<le> fst x" by simp
  qed
  with Cons.IH show ?case by simp
qed

lemma keys_present: "\<forall>p \<in> set (map fst h). map_of h p \<noteq> None"
  by (auto simp: map_of_eq_None_iff)

lemma build_graph_snd:
  "snd (build_graph hashes T cb ti) =
     Inr (the_graph hashes T, length hashes * (length hashes - 1) div 2)"
proof -
  let ?ps = "map fst hashes"
  have idx: "\<forall>i \<in> set [0 ..< length ?ps]. i < length ?ps" by simp
  note r = compare_outer_result [OF idx keys_present, unfolded sum_remaining length_map]
  have ip: "index_pairs ?ps [0 ..< length hashes] = pairs_of ?ps"
    using index_pairs_all [of ?ps] by simp
  show ?thesis
    unfolding build_graph_def Let_def the_graph_def by (simp add: r ip)
qed

lemma build_graph_compared:
  "compared_pairs (fst (build_graph hashes T cb ti)) = pairs_of (map fst hashes)"
proof -
  let ?ps = "map fst hashes"
  have idx: "\<forall>i \<in> set [0 ..< length ?ps]. i < length ?ps" by simp
  note r = compare_outer_compared [OF idx keys_present, unfolded length_map]
  have ip: "index_pairs ?ps [0 ..< length hashes] = pairs_of ?ps"
    using index_pairs_all [of ?ps] by simp
  show ?thesis
    unfolding build_graph_def Let_def by (simp add: r ip)
qed

lemma build_graph_opened: "opened_images (fst (build_graph hashes T cb ti)) = []"
proof -
  let ?ps = "map fst hashes"
  have idx: "\<forall>i \<in> set [0 ..< length ?ps]. i < length ?ps" by simp
  note r = compare_outer_opened [OF idx keys_present, unfolded length_map]
  show ?thesis
    unfolding build_graph_def Let_def by (simp add: r)
qed

lemma build_graph_progress:
  "progress_events (fst (build_graph hashes T cb ti)) =
     (if cb then outer_events ti (length hashes * (length hashes - 1) div 2) (length hashes)
                   [0 ..< length hashes] 0
      else [])"
proof -
  let ?ps = "map fst hashes"
  have idx: "\<forall>i \<in> set [0 ..< length ?ps]. i < length ?ps" by simp
  note r = compare_outer_progress [OF idx keys_present, unfolded length_map]
  show ?thesis
    unfolding build_graph_def Let_def by (simp add: r)
qed

lemma edges_of_the_graph:
  assumes "distinct (map fst hashes)"
  shows "edges_of (the_graph hashes T) =
           {(a, b). a \<in> fst ` set hashes \<and> b \<in> fst ` set hashes \<and> a \<noteq> b
                    \<and> close_enough hashes T a b}"
proof -
  let ?P = "set (pairs_of (map fst hashes))"
  have 1: "\<And>a b. (a, b) \<in> ?P \<or> (b, a) \<in> ?P \<Longrightarrow>
             a \<in> fst ` set hashes \<and> b \<in> fst ` set hashes \<and> a \<noteq> b"
    using pairs_of_subset [of _ _ "map fst hashes"] pairs_of_irrefl [OF assms] by fastforce
  have 2: "\<And>a b. a \<in> fst ` set hashes \<Longrightarrow> b \<in> fst ` set hashes \<Longrightarrow> a \<noteq> b \<Longrightarrow>
             (a, b) \<in> ?P \<or> (b, a) \<in> ?P"
    using pairs_of_total [of _ "map fst hashes"] by simp
  have "edges_of (the_graph hashes T) =
          {(a, b). ((a, b) \<in> ?P \<or> (b, a) \<in> ?P) \<and> close_enough hashes T a b}"
    by (simp add: the_graph_def edges_of_link_all edges_of_Nil)
  also have "\<dots> = {(a, b). a \<in> fst ` set hashes \<and> b \<in> fst ` set hashes \<and> a \<noteq> b
                    \<and> close_enough hashes T a b}"
    using 1 2 by blast
  finally show ?thesis .
qed

lemma sym_the_graph:
  assumes "distinct (map fst hashes)"
  shows "sym (edges_of (the_graph hashes T))"
  unfolding edges_of_the_graph [OF assms]
  by (rule symI) (auto simp: close_enough_sym)

subsection \<open>Components\<close>

lemma component_refl: "a \<in> component G a"
  by (simp add: component_def)

lemma component_step: "b \<in> component G a \<Longrightarrow> (b, c) \<in> G \<Longrightarrow> c \<in> component G a"
  by (auto simp: component_def intro: rtrancl_into_rtrancl)

lemma component_least:
  assumes "G `` X \<subseteq> X" "a \<in> X"
  shows "component G a \<subseteq> X"
proof
  fix b assume "b \<in> component G a"
  then have "(a, b) \<in> G\<^sup>*" by (simp add: component_def)
  then show "b \<in> X" using assms by (induction rule: rtrancl_induct) auto
qed

lemma component_sym:
  assumes "sym G" "b \<in> component G a"
  shows "a \<in> component G b"
proof -
  have "sym (G\<^sup>*)" using assms(1) by (rule sym_rtrancl)
  then show ?thesis using assms(2) by (auto simp: component_def dest: symD)
qed

lemma component_trans: "b \<in> component G a \<Longrightarrow> c \<in> component G b \<Longrightarrow> c \<in> component G a"
  by (auto simp: component_def)

lemma component_eq:
  assumes "sym G" "b \<in> component G a"
  shows "component G b = component G a"
proof
  show "component G b \<subseteq> component G a" using assms(2) component_trans by fast
  have "a \<in> component G b" using assms by (rule component_sym)
  then show "component G a \<subseteq> component G b" using component_trans by fast
qed

lemma component_isolated: "G `` {a} = {} \<Longrightarrow> component G a = {a}"
proof -
  assume "G `` {a} = {}"
  then have "G `` {a} \<subseteq> {a}" by simp
  then have "component G a \<subseteq> {a}" by (rule component_least) simp
  then show ?thesis using component_refl [of a G] by blast
qed

lemma component_mono: "G \<subseteq> G' \<Longrightarrow> component G a \<subseteq> component G' a"
  unfolding component_def using rtrancl_mono [of G G'] by blast

lemma components_nonempty: "C \<in> components V G \<Longrightarrow> C \<noteq> {}"
  using component_refl by (fastforce simp: components_def)

lemma components_disjoint:
  assumes "sym G" "C \<in> components V G" "D \<in> components V G" "C \<inter> D \<noteq> {}"
  shows "C = D"
proof -
  obtain a b where C: "C = component G a" and D: "D = component G b"
    using assms(2,3) by (auto simp: components_def)
  obtain x where x: "x \<in> component G a" "x \<in> component G b" using assms(4) C D by blast
  have "component G x = component G a" "component G x = component G b"
    using component_eq [OF assms(1)] x by blast+
  then show ?thesis using C D by simp
qed

subsection \<open>The traversal\<close>

lemma bfs_inv_step:
  assumes inv: "bfs_inv G s vis0 (u # q) vis grp"
    and N: "G `` {u} = N" and v': "vis' = vis \<union> N" and q': "q' = q @ new"
    and new: "set new = N - vis" "distinct new"
  shows "bfs_inv G s vis0 q' vis' (grp @ [u])"
proof -
  from inv [unfolded bfs_inv_def] have vis: "vis = vis0 \<union> set grp \<union> set (u # q)"
    and dist: "distinct (grp @ u # q)"
    and disj: "(set grp \<union> set (u # q)) \<inter> vis0 = {}"
    and reach: "set grp \<union> set (u # q) \<subseteq> component G s"
    and nbrs: "G `` set grp \<subseteq> vis"
    and s: "s \<in> set grp \<union> set (u # q)"
    by blast+
  have 1: "vis' = vis0 \<union> set (grp @ [u]) \<union> set q'"
    using vis v' q' new(1) by auto
  have "set new \<inter> (set grp \<union> set (u # q)) = {}" using new(1) vis by auto
  then have 2: "distinct ((grp @ [u]) @ q')" using dist new(2) q' by auto
  have 3: "(set (grp @ [u]) \<union> set q') \<inter> vis0 = {}"
    using disj q' new(1) vis by auto
  have "u \<in> component G s" using reach by simp
  then have "N \<subseteq> component G s" using N component_step [of u G s] by auto
  then have 4: "set (grp @ [u]) \<union> set q' \<subseteq> component G s"
    using reach q' new(1) by auto
  have 5: "G `` set (grp @ [u]) \<subseteq> vis'" using nbrs N v' by auto
  have 6: "s \<in> set (grp @ [u]) \<union> set q'" using s q' by auto
  show ?thesis unfolding bfs_inv_def using 1 2 3 4 5 6 by blast
qed

lemma bfs_preserves:
  "bfs_inv (edges_of adj) s vis0 q vis grp \<Longrightarrow> bfs adj q vis grp = (vis', grp') \<Longrightarrow>
     bfs_inv (edges_of adj) s vis0 [] vis' grp'"
proof (induction adj q vis grp rule: bfs.induct)
  case (1 adj visited current_group)
  then show ?case by simp
next
  case (2 adj u q visited current_group)
  show ?case
  proof (cases "map_of adj u")
    case None
    then have N: "edges_of adj `` {u} = {}" by (simp add: edges_of_Image)
    have inv: "bfs_inv (edges_of adj) s vis0 q visited (current_group @ [u])"
      by (rule bfs_inv_step [OF "2.prems"(1) N, where new = "[]"]) simp_all
    have "bfs adj q visited (current_group @ [u]) = (vis', grp')"
      using "2.prems"(2) None by simp
    from "2.IH"(1) [OF None inv this] show ?thesis .
  next
    case (Some ns)
    then have N: "edges_of adj `` {u} = set ns" by (simp add: edges_of_Image)
    obtain v1 q1 where vn: "visit_neighbours ns (visited, q) = (v1, q1)"
      by (cases "visit_neighbours ns (visited, q)")
    from visit_neighbours_result [OF this] obtain new where
      v1: "v1 = visited \<union> set ns" and q1: "q1 = q @ new"
      and new: "set new = set ns - visited" "distinct new" by blast
    have inv: "bfs_inv (edges_of adj) s vis0 q1 v1 (current_group @ [u])"
      by (rule bfs_inv_step [OF "2.prems"(1) N v1 q1 new])
    have "bfs adj q1 v1 (current_group @ [u]) = (vis', grp')"
      using "2.prems"(2) Some vn by simp
    from "2.IH"(2) [OF Some vn [symmetric] refl inv this] show ?thesis .
  qed
qed

lemma bfs_component:
  assumes "sym (edges_of adj)" and closed: "edges_of adj `` vis0 \<subseteq> vis0" and s: "s \<notin> vis0"
    and run: "bfs adj [s] (insert s vis0) [] = (vis', grp)"
  shows "set grp = component (edges_of adj) s \<and> distinct grp \<and>
         vis' = vis0 \<union> component (edges_of adj) s \<and> component (edges_of adj) s \<inter> vis0 = {}"
proof -
  let ?G = "edges_of adj"
  have "bfs_inv ?G s vis0 [s] (insert s vis0) []"
    using s by (simp add: bfs_inv_def component_refl)
  from bfs_preserves [OF this run] have "bfs_inv ?G s vis0 [] vis' grp" .
  then have "vis' = vis0 \<union> set grp \<and> distinct grp \<and> set grp \<inter> vis0 = {}
      \<and> set grp \<subseteq> component ?G s \<and> ?G `` set grp \<subseteq> vis' \<and> s \<in> set grp"
    by (auto simp: bfs_inv_def)
  then have vis': "vis' = vis0 \<union> set grp" and dist: "distinct grp"
    and disj: "set grp \<inter> vis0 = {}" and reach: "set grp \<subseteq> component ?G s"
    and nbrs: "?G `` set grp \<subseteq> vis'" and sg: "s \<in> set grp"
    by blast+
  have "?G `` vis' \<subseteq> vis'" using closed nbrs vis' by blast
  moreover have "s \<in> vis'" using sg vis' by simp
  ultimately have sub: "component ?G s \<subseteq> vis'" by (rule component_least)
  have none: "component ?G s \<inter> vis0 = {}"
  proof (rule ccontr)
    assume "component ?G s \<inter> vis0 \<noteq> {}"
    then obtain t where t: "t \<in> component ?G s" "t \<in> vis0" by blast
    have "s \<in> component ?G t" using assms(1) t(1) by (rule component_sym)
    moreover have "component ?G t \<subseteq> vis0" using closed t(2) by (rule component_least)
    ultimately show False using s by blast
  qed
  have "set grp = component ?G s" using sub none reach vis' by blast
  then show ?thesis using dist vis' none by simp
qed

subsection \<open>The loop over the images\<close>

lemma set_update_fresh:
  "k \<notin> fst ` set al \<Longrightarrow> set (AList.update k v al) = insert (k, v) (set al)"
  by (induction al) auto

lemma sort_distinct_eq: "distinct xs \<Longrightarrow> sort xs = sorted_list_of_set (set xs)"
  by (simp add: sorted_list_of_set_sort_remdups distinct_remdups_id)

lemma groups_inv_keys:
  assumes "groups_inv G vis res"
  shows "fst ` set res \<subseteq> vis"
proof
  fix k assume "k \<in> fst ` set res"
  then obtain a where a: "a \<in> vis" and k: "k = Min (component G a)"
    using assms by (auto simp: groups_inv_def group_entry_def)
  have sub: "component G a \<subseteq> vis"
    using assms a by (intro component_least) (auto simp: groups_inv_def)
  then have "finite (component G a)" using assms by (auto simp: groups_inv_def intro: finite_subset)
  moreover have "component G a \<noteq> {}" using component_refl [of a G] by blast
  ultimately have "Min (component G a) \<in> component G a" by (rule Min_in)
  then show "k \<in> vis" using k sub by blast
qed

lemma groups_inv_isolated:
  assumes inv: "groups_inv G vis res" and iso: "G `` {p} = {}"
  shows "groups_inv G (insert p vis) res"
proof -
  have c: "component G p = {p}" using iso by (rule component_isolated)
  have "{group_entry (component G a) | a. a \<in> insert p vis \<and> 2 \<le> card (component G a)}
          = {group_entry (component G a) | a. a \<in> vis \<and> 2 \<le> card (component G a)}"
    using c by auto
  moreover have "G `` insert p vis \<subseteq> insert p vis" using inv iso by (auto simp: groups_inv_def)
  ultimately show ?thesis using inv by (simp add: groups_inv_def)
qed

lemma groups_inv_component:
  assumes inv: "groups_inv G vis res" and sym: "sym G"
    and C: "C = component G p" and fin: "finite C" and disj: "C \<inter> vis = {}"
    and res': "res' = (if 2 \<le> card C then AList.update (Min C) (sorted_list_of_set C) res
                       else res)"
  shows "groups_inv G (vis \<union> C) res'"
proof -
  have same: "\<And>a. a \<in> C \<Longrightarrow> component G a = C"
    using component_eq [OF sym] C by blast
  have pC: "p \<in> C" using C component_refl by fast
  have "Min C \<in> C" using fin pC by (intro Min_in) auto
  then have fresh: "Min C \<notin> fst ` set res" using groups_inv_keys [OF inv] disj by blast
  have closed: "G `` (vis \<union> C) \<subseteq> vis \<union> C"
    using inv C component_step [of _ G p] by (auto simp: groups_inv_def)
  have dist: "distinct (map fst res')" using inv res' by (simp add: groups_inv_def distinct_update)
  have old: "set res = {group_entry (component G a) | a. a \<in> vis \<and> 2 \<le> card (component G a)}"
    using inv by (simp add: groups_inv_def)
  have "set res' = {group_entry (component G a) | a. a \<in> vis \<union> C \<and> 2 \<le> card (component G a)}"
  proof (cases "2 \<le> card C")
    case True
    then have "set res' = insert (group_entry C) (set res)"
      using res' fresh by (simp add: set_update_fresh group_entry_def)
    also have "\<dots> = {group_entry (component G a) | a. a \<in> vis \<union> C \<and> 2 \<le> card (component G a)}"
      unfolding old using same pC True by auto
    finally show ?thesis .
  next
    case False
    then have "set res' = set res" using res' by simp
    also have "\<dots> = {group_entry (component G a) | a. a \<in> vis \<union> C \<and> 2 \<le> card (component G a)}"
      unfolding old using same False by auto
    finally show ?thesis .
  qed
  then show ?thesis using inv fin closed dist by (simp add: groups_inv_def)
qed

lemma extract_groups_inv:
  assumes sym: "sym (edges_of adj)"
  shows "groups_inv (edges_of adj) vis res \<Longrightarrow> extract_groups adj ps (vis, res) = (vis', res') \<Longrightarrow>
     groups_inv (edges_of adj) vis' res' \<and>
     vis' = vis \<union> (\<Union>a \<in> set ps. component (edges_of adj) a)"
proof (induction ps arbitrary: vis res)
  case Nil
  then show ?case by simp
next
  case (Cons p ps)
  let ?G = "edges_of adj"
  have closed: "?G `` vis \<subseteq> vis" using Cons.prems(1) by (simp add: groups_inv_def)
  consider (start) "p \<notin> vis" "map_of adj p \<noteq> None"
    | (alone) "p \<notin> vis" "map_of adj p = None"
    | (seen) "p \<in> vis" by blast
  then show ?case
  proof cases
    case start
    obtain v1 grp where run: "bfs adj [p] (insert p vis) [] = (v1, grp)"
      by (cases "bfs adj [p] (insert p vis) []")
    from bfs_component [OF sym closed start(1) run] have
      grp: "set grp = component ?G p" "distinct grp" and v1: "v1 = vis \<union> component ?G p"
      and disj: "component ?G p \<inter> vis = {}" by blast+
    let ?res1 = "if length grp > 1 then AList.update (Min (set grp)) (sort grp) res else res"
    have len: "(length grp > 1) = (2 \<le> card (component ?G p))"
      using grp distinct_card [of grp] by auto
    have srt: "sort grp = sorted_list_of_set (component ?G p)"
      using sort_distinct_eq [OF grp(2)] grp(1) by simp
    have eq: "?res1 = (if 2 \<le> card (component ?G p)
                   then AList.update (Min (component ?G p))
                          (sorted_list_of_set (component ?G p)) res
                   else res)"
      unfolding len srt grp(1) ..
    have fin: "finite (component ?G p)" using grp(1) [symmetric] by simp
    have "groups_inv ?G (vis \<union> component ?G p) ?res1"
      by (rule groups_inv_component [OF Cons.prems(1) sym refl fin disj eq])
    then have inv1: "groups_inv ?G v1 ?res1" using v1 by simp
    have "extract_groups adj ps (v1, ?res1) = (vis', res')"
      using Cons.prems(2) start run by (simp del: bfs.simps)
    from Cons.IH [OF inv1 this] have inv': "groups_inv ?G vis' res'"
      and vis': "vis' = v1 \<union> (\<Union>a \<in> set ps. component ?G a)" by blast+
    have "vis' = vis \<union> (\<Union>a \<in> set (p # ps). component ?G a)"
      unfolding vis' v1 by (simp add: Un_assoc)
    with inv' show ?thesis by blast
  next
    case alone
    then have iso: "?G `` {p} = {}" by (simp add: edges_of_Image)
    have inv1: "groups_inv ?G (insert p vis) res"
      using Cons.prems(1) iso by (rule groups_inv_isolated)
    have c: "component ?G p = {p}" using iso by (rule component_isolated)
    have "extract_groups adj ps (insert p vis, res) = (vis', res')"
      using Cons.prems(2) alone by (simp del: bfs.simps)
    from Cons.IH [OF inv1 this] have inv': "groups_inv ?G vis' res'"
      and vis': "vis' = insert p vis \<union> (\<Union>a \<in> set ps. component ?G a)" by blast+
    have "vis' = vis \<union> (\<Union>a \<in> set (p # ps). component ?G a)"
      unfolding vis' using c by simp
    with inv' show ?thesis by blast
  next
    case seen
    have sub: "component ?G p \<subseteq> vis" using closed seen by (rule component_least)
    have "extract_groups adj ps (vis, res) = (vis', res')"
      using Cons.prems(2) seen by (simp del: bfs.simps)
    from Cons.IH [OF Cons.prems(1) this] have inv': "groups_inv ?G vis' res'"
      and vis': "vis' = vis \<union> (\<Union>a \<in> set ps. component ?G a)" by blast+
    have "vis' = vis \<union> (\<Union>a \<in> set (p # ps). component ?G a)"
      unfolding vis' using sub by auto
    with inv' show ?thesis by blast
  qed
qed

lemma extract_groups_result:
  assumes sym: "sym (edges_of adj)"
    and run: "extract_groups adj ps ({}, []) = (vis, res)"
  shows "distinct (map fst res) \<and>
         set res = {group_entry (component (edges_of adj) a) | a.
                      a \<in> set ps \<and> 2 \<le> card (component (edges_of adj) a)}"
proof -
  let ?G = "edges_of adj"
  have "groups_inv ?G {} []" by (simp add: groups_inv_def)
  from extract_groups_inv [OF sym this run] have inv: "groups_inv ?G vis res"
    and vis: "vis = (\<Union>a \<in> set ps. component ?G a)" by blast+
  have "{group_entry (component ?G a) | a. a \<in> vis \<and> 2 \<le> card (component ?G a)}
          = {group_entry (component ?G a) | a. a \<in> set ps \<and> 2 \<le> card (component ?G a)}"
    (is "?L = ?R")
  proof
    show "?L \<subseteq> ?R"
    proof
      fix e assume "e \<in> ?L"
      then obtain a where a: "a \<in> vis" "2 \<le> card (component ?G a)"
        and e: "e = group_entry (component ?G a)" by blast
      from a(1) vis obtain p where p: "p \<in> set ps" "a \<in> component ?G p" by blast
      have "component ?G a = component ?G p" using sym p(2) by (rule component_eq)
      then show "e \<in> ?R" using a(2) e p(1) by auto
    qed
    show "?R \<subseteq> ?L" using vis component_refl by fastforce
  qed
  then show ?thesis using inv by (simp add: groups_inv_def)
qed

subsection \<open>The run as a whole\<close>

lemma group_and_finish_eq:
  "group_and_finish hashes T cb ti =
     (fst (build_graph hashes T cb ti)
        @ emit cb (ti + length hashes * (length hashes - 1) div 2)
            (ti + length hashes * (length hashes - 1) div 2)
            (Concluded (length (snd (extract_groups (the_graph hashes T) (map fst hashes) ({}, []))))),
      Inr (Some (snd (extract_groups (the_graph hashes T) (map fst hashes) ({}, [])))))"
proof -
  obtain tr where bg: "build_graph hashes T cb ti
      = (tr, Inr (the_graph hashes T, length hashes * (length hashes - 1) div 2))"
    using build_graph_snd [of hashes T cb ti] by (cases "build_graph hashes T cb ti") simp
  show ?thesis
    by (simp add: group_and_finish_def bg Let_def case_prod_beta)
qed

lemma find_similar_images_fatal:
  "fatal w folder_path \<Longrightarrow>
     find_similar_images w folder_path hs T cb =
       (emit cb 0 1 (if \<not> isdir w folder_path then FolderNotFound folder_path
                     else ListingFailed (projl (listdir w folder_path))),
        Inr None)"
  by (auto simp: fatal_def find_similar_images_def)

lemma find_similar_images_empty:
  "\<not> fatal w folder_path \<Longrightarrow> run_images w folder_path = [] \<Longrightarrow>
     find_similar_images w folder_path hs T cb = (emit cb 1 1 NoSupportedFiles, Inr (Some []))"
  by (auto simp: fatal_def find_similar_images_def run_images_def split: sum.splits)

lemma find_similar_images_unhashed:
  assumes "\<not> fatal w folder_path" "run_images w folder_path \<noteq> []"
    "run_hashes w folder_path hs = []"
  shows "find_similar_images w folder_path hs T cb =
     (emit cb 0 (length (run_images w folder_path) * 2)
        (HashingStart (length (run_images w folder_path)))
      @ snd (hashing_loop w hs cb (length (run_images w folder_path))
               (run_images w folder_path) ([], 0))
      @ emit cb (length (run_images w folder_path) * 2) (length (run_images w folder_path) * 2)
          NothingProcessed,
      Inr (Some []))"
proof -
  obtain fs where fs: "listdir w folder_path = Inr fs" and d: "isdir w folder_path"
    using assms(1) by (cases "listdir w folder_path") (auto simp: fatal_def)
  have im: "image_files_of folder_path fs = run_images w folder_path"
    by (simp add: run_images_def fs)
  have "fst (fst (hashing_loop w hs cb (length (run_images w folder_path))
               (run_images w folder_path) ([], 0))) = []"
    using assms(3) hashing_loop_hashes_indep [of w hs cb _ _ "[]" 0 False 0 0]
    by (simp add: run_hashes_def)
  then show ?thesis
    using assms(2) by (simp add: find_similar_images_def d fs im Let_def case_prod_beta)
qed

lemma find_similar_images_main:
  assumes "\<not> fatal w folder_path" "run_hashes w folder_path hs \<noteq> []"
  shows "find_similar_images w folder_path hs T cb =
     (emit cb 0 (length (run_images w folder_path) * 2)
        (HashingStart (length (run_images w folder_path)))
      @ snd (hashing_loop w hs cb (length (run_images w folder_path))
               (run_images w folder_path) ([], 0))
      @ fst (build_graph (run_hashes w folder_path hs) T cb (length (run_images w folder_path)))
      @ emit cb (length (run_images w folder_path)
                 + length (run_hashes w folder_path hs)
                   * (length (run_hashes w folder_path hs) - 1) div 2)
                (length (run_images w folder_path)
                 + length (run_hashes w folder_path hs)
                   * (length (run_hashes w folder_path hs) - 1) div 2)
                (Concluded (length (run_groups w folder_path hs T))),
      Inr (Some (run_groups w folder_path hs T)))"
proof -
  obtain fs where fs: "listdir w folder_path = Inr fs" and d: "isdir w folder_path"
    using assms(1) by (cases "listdir w folder_path") (auto simp: fatal_def)
  have im: "image_files_of folder_path fs = run_images w folder_path"
    by (simp add: run_images_def fs)
  have h: "fst (fst (hashing_loop w hs cb (length (run_images w folder_path))
               (run_images w folder_path) ([], 0))) = run_hashes w folder_path hs"
    using hashing_loop_hashes_indep [of w hs cb _ _ "[]" 0 False 0 0]
    by (simp add: run_hashes_def)
  have ne: "run_images w folder_path \<noteq> []"
    using assms(2) by (auto simp: run_hashes_def)
  show ?thesis
    using assms(2) ne
    by (simp add: find_similar_images_def d fs im Let_def case_prod_beta h
          group_and_finish_eq run_groups_def)
qed

lemma fingerprinted_run_images:
  "fingerprinted w f hs = {p \<in> set (run_images w f). image_phash w p hs \<noteq> None}"
  by (simp add: fingerprinted_def run_images_def split: sum.splits)

lemma run_hashes_lookup:
  "map_of (run_hashes w f hs) p = (if p \<in> fingerprinted w f hs then image_phash w p hs else None)"
  by (simp add: run_hashes_def hashing_loop_lookup fingerprinted_run_images)

lemma run_hashes_keys: "fst ` set (run_hashes w f hs) = fingerprinted w f hs"
proof -
  have "fst ` set (run_hashes w f hs) = dom (map_of (run_hashes w f hs))"
    by (simp add: dom_map_of_conv_image_fst)
  also have "\<dots> = fingerprinted w f hs"
    by (auto simp: run_hashes_lookup fingerprinted_run_images dom_def)
  finally show ?thesis .
qed

lemma run_hashes_distinct: "distinct (map fst (run_hashes w f hs))"
  unfolding run_hashes_def by (rule hashing_loop_distinct) simp

lemma run_hashes_empty: "run_hashes w f hs = [] \<longleftrightarrow> fingerprinted w f hs = {}"
  using run_hashes_keys [of w f hs] by auto

lemma finite_fingerprinted: "finite (fingerprinted w f hs)"
  by (simp add: fingerprinted_run_images)

lemma run_close_enough:
  "a \<in> fingerprinted w f hs \<Longrightarrow> b \<in> fingerprinted w f hs \<Longrightarrow>
     close_enough (run_hashes w f hs) T a b = similar w hs T a b"
  by (simp add: close_enough_def similar_def run_hashes_lookup)

lemma run_graph: "edges_of (the_graph (run_hashes w f hs) T) = similarity_graph w f hs T"
  unfolding edges_of_the_graph [OF run_hashes_distinct] run_hashes_keys similarity_graph_def
  using run_close_enough [of _ w f hs _ T] by blast

lemma sym_similarity_graph: "sym (similarity_graph w f hs T)"
  using sym_the_graph [OF run_hashes_distinct, of w f hs T] by (simp add: run_graph)

lemma run_groups_result:
  "distinct (map fst (run_groups w f hs T)) \<and>
   set (run_groups w f hs T) =
     {group_entry C | C. C \<in> components (fingerprinted w f hs) (similarity_graph w f hs T)
                        \<and> 2 \<le> card C}"
proof -
  obtain vis where run: "extract_groups (the_graph (run_hashes w f hs) T)
      (map fst (run_hashes w f hs)) ({}, []) = (vis, run_groups w f hs T)"
    by (cases "extract_groups (the_graph (run_hashes w f hs) T)
      (map fst (run_hashes w f hs)) ({}, [])") (simp add: run_groups_def)
  have s: "sym (edges_of (the_graph (run_hashes w f hs) T))"
    using run_hashes_distinct by (rule sym_the_graph)
  have k: "set (map fst (run_hashes w f hs)) = fingerprinted w f hs"
    using run_hashes_keys [of w f hs] by simp
  from extract_groups_result [OF s run]
  have d: "distinct (map fst (run_groups w f hs T))"
    and e: "set (run_groups w f hs T) =
       {group_entry (component (similarity_graph w f hs T) a) | a.
          a \<in> fingerprinted w f hs \<and> 2 \<le> card (component (similarity_graph w f hs T) a)}"
    unfolding run_graph k by blast+
  have "{group_entry (component (similarity_graph w f hs T) a) | a.
          a \<in> fingerprinted w f hs \<and> 2 \<le> card (component (similarity_graph w f hs T) a)}
        = {group_entry C | C. C \<in> components (fingerprinted w f hs) (similarity_graph w f hs T)
                        \<and> 2 \<le> card C}"
    unfolding components_def by blast
  with d e show ?thesis by simp
qed

lemma find_similar_images_returns:
  "snd (find_similar_images w f hs T cb) =
     (if fatal w f then Inr None else Inr (Some (run_groups w f hs T)))"
proof (cases "fatal w f")
  case True
  then show ?thesis by (simp add: find_similar_images_fatal)
next
  case nf: False
  show ?thesis
  proof (cases "run_hashes w f hs = []")
    case False
    then show ?thesis using nf by (simp add: find_similar_images_main)
  next
    case True
    then have g: "run_groups w f hs T = []" by (simp add: run_groups_def)
    show ?thesis
    proof (cases "run_images w f = []")
      case True
      then show ?thesis using nf g by (simp add: find_similar_images_empty)
    next
      case False
      then show ?thesis using nf g True by (simp add: find_similar_images_unhashed)
    qed
  qed
qed

lemma find_similar_images_opened:
  "opened_images (fst (find_similar_images w f hs T cb)) = (if fatal w f then [] else run_images w f)"
proof (cases "fatal w f")
  case True
  then show ?thesis by (simp add: find_similar_images_fatal)
next
  case nf: False
  show ?thesis
  proof (cases "run_hashes w f hs = []")
    case False
    then show ?thesis using nf
      by (simp add: find_similar_images_main hashing_loop_opened build_graph_opened)
  next
    case True
    show ?thesis
    proof (cases "run_images w f = []")
      case True
      then show ?thesis using nf by (simp add: find_similar_images_empty)
    next
      case False
      then show ?thesis using nf True
        by (simp add: find_similar_images_unhashed hashing_loop_opened)
    qed
  qed
qed

lemma find_similar_images_compared:
  "compared_pairs (fst (find_similar_images w f hs T cb)) =
     (if fatal w f then [] else pairs_of (map fst (run_hashes w f hs)))"
proof (cases "fatal w f")
  case True
  then show ?thesis by (simp add: find_similar_images_fatal)
next
  case nf: False
  show ?thesis
  proof (cases "run_hashes w f hs = []")
    case False
    then show ?thesis using nf
      by (simp add: find_similar_images_main hashing_loop_compared build_graph_compared)
  next
    case True
    show ?thesis
    proof (cases "run_images w f = []")
      case e: True
      then show ?thesis using nf True by (simp add: find_similar_images_empty)
    next
      case False
      then show ?thesis using nf True
        by (simp add: find_similar_images_unhashed hashing_loop_compared)
    qed
  qed
qed

lemma find_similar_images_comparisons:
  assumes "\<not> fatal w f"
  shows "length (compared_pairs (fst (find_similar_images w f hs T cb)))
           = card (fingerprinted w f hs) * (card (fingerprinted w f hs) - 1) div 2"
proof -
  have "card (fingerprinted w f hs) = length (run_hashes w f hs)"
    using distinct_card [OF run_hashes_distinct, of w f hs] run_hashes_keys [of w f hs]
    by simp
  then show ?thesis using assms by (simp add: find_similar_images_compared length_pairs_of)
qed

subsection \<open>Returned groups\<close>

lemma similarity_graph_closed:
  "similarity_graph w f hs T `` fingerprinted w f hs \<subseteq> fingerprinted w f hs"
  by (auto simp: similarity_graph_def)

lemma components_subset:
  "C \<in> components (fingerprinted w f hs) (similarity_graph w f hs T) \<Longrightarrow>
     C \<subseteq> fingerprinted w f hs"
proof -
  assume "C \<in> components (fingerprinted w f hs) (similarity_graph w f hs T)"
  then obtain a where a: "a \<in> fingerprinted w f hs"
    and C: "C = component (similarity_graph w f hs T) a"
    by (auto simp: components_def)
  show ?thesis unfolding C using similarity_graph_closed a by (rule component_least)
qed

lemma components_finite:
  "C \<in> components (fingerprinted w f hs) (similarity_graph w f hs T) \<Longrightarrow> finite C"
  using components_subset finite_fingerprinted by (metis finite_subset)

lemma large_components_Min_inj: "inj_on Min (large_components w f hs T)"
proof (rule inj_onI)
  fix C D
  assume C: "C \<in> large_components w f hs T" and D: "D \<in> large_components w f hs T"
    and m: "Min C = Min D"
  let ?K = "components (fingerprinted w f hs) (similarity_graph w f hs T)"
  have CK: "C \<in> ?K" and DK: "D \<in> ?K" using C D by (simp_all add: large_components_def)
  have "Min C \<in> C" using components_finite [OF CK] components_nonempty [OF CK] by (rule Min_in)
  moreover have "Min D \<in> D"
    using components_finite [OF DK] components_nonempty [OF DK] by (rule Min_in)
  ultimately have "C \<inter> D \<noteq> {}" using m by auto
  with sym_similarity_graph CK DK show "C = D" by (rule components_disjoint)
qed

lemma returned_groups:
  assumes "snd (find_similar_images w f hs T cb) = Inr (Some result)"
  shows "result = run_groups w f hs T"
  using assms by (simp add: find_similar_images_returns split: if_splits)

lemma returned_groups_set:
  assumes "snd (find_similar_images w f hs T cb) = Inr (Some result)"
  shows "distinct (map fst result)" "set result = group_entry ` large_components w f hs T"
proof -
  have r: "result = run_groups w f hs T" using assms by (rule returned_groups)
  show "distinct (map fst result)" unfolding r using run_groups_result by blast
  have "set result = {group_entry C | C. C \<in> components (fingerprinted w f hs)
            (similarity_graph w f hs T) \<and> 2 \<le> card C}"
    unfolding r using run_groups_result by blast
  also have "\<dots> = group_entry ` large_components w f hs T"
    unfolding large_components_def by blast
  finally show "set result = group_entry ` large_components w f hs T" .
qed

lemma group_entry_members:
  assumes "snd (find_similar_images w f hs T cb) = Inr (Some result)" "(k, vs) \<in> set result"
  shows "\<exists>C \<in> large_components w f hs T. finite C \<and> C \<subseteq> fingerprinted w f hs
           \<and> k = Min C \<and> vs = sorted_list_of_set C \<and> set vs = C \<and> length vs = card C"
proof -
  from returned_groups_set(2) [OF assms(1)] assms(2) obtain C where
    C: "C \<in> large_components w f hs T" and e: "(k, vs) = group_entry C" by blast
  have CK: "C \<in> components (fingerprinted w f hs) (similarity_graph w f hs T)"
    using C by (simp add: large_components_def)
  have fin: "finite C" using CK by (rule components_finite)
  have "set vs = C" "length vs = card C" using e fin by (simp_all add: group_entry_def)
  then show ?thesis using C fin components_subset [OF CK] e by (auto simp: group_entry_def)
qed

lemma similarity_graph_mono:
  "T1 \<le> T2 \<Longrightarrow> similarity_graph w f hs T1 \<subseteq> similarity_graph w f hs T2"
proof
  fix e assume le: "T1 \<le> T2" and e: "e \<in> similarity_graph w f hs T1"
  obtain a b where ab: "e = (a, b)" by (cases e)
  from e [unfolded ab similarity_graph_def similar_def] obtain ha hb where
    V: "a \<in> fingerprinted w f hs" "b \<in> fingerprinted w f hs" "a \<noteq> b"
    and h: "image_phash w a hs = Some ha" "image_phash w b hs = Some hb"
    and d: "int (hamming ha hb) \<le> T1" by blast
  have "int (hamming ha hb) \<le> T2" using d le by simp
  then have "similar w hs T2 a b" using h by (auto simp: similar_def)
  then show "e \<in> similarity_graph w f hs T2" using V ab by (simp add: similarity_graph_def)
qed

lemma no_edges_no_groups:
  assumes "similarity_graph w f hs T = {}"
  shows "run_groups w f hs T = []"
proof -
  have "large_components w f hs T = {}"
  proof (rule ccontr)
    assume "large_components w f hs T \<noteq> {}"
    then obtain a where "2 \<le> card (component (similarity_graph w f hs T) a)"
      by (auto simp: large_components_def components_def)
    moreover have "component (similarity_graph w f hs T) a = {a}"
      by (rule component_isolated) (simp add: assms)
    ultimately show False by simp
  qed
  moreover have "set (run_groups w f hs T) = group_entry ` large_components w f hs T"
    using run_groups_result [of w f hs T] by (auto simp: large_components_def)
  ultimately show ?thesis by simp
qed

lemma no_edges_iff:
  "similarity_graph w f hs T = {} \<longleftrightarrow>
     list_all (\<lambda>(a, b). \<not> close_enough (run_hashes w f hs) T a b)
       (pairs_of (map fst (run_hashes w f hs)))"
proof -
  let ?h = "run_hashes w f hs"
  let ?P = "set (pairs_of (map fst ?h))"
  have "similarity_graph w f hs T
          = {(a, b). ((a, b) \<in> ?P \<or> (b, a) \<in> ?P) \<and> close_enough ?h T a b}"
    unfolding run_graph [symmetric] by (simp add: the_graph_def edges_of_link_all edges_of_Nil)
  also have "\<dots> = {} \<longleftrightarrow> (\<forall>(a, b) \<in> ?P. \<not> close_enough ?h T a b)"
    using close_enough_sym [of ?h T] by blast
  finally show ?thesis by (simp add: list_all_iff)
qed

lemma fingerprinted_cong:
  assumes "listdir w f = Inr fs" "listdir w' f = Inr fs'" "set fs' = set fs"
    "image_phash w' = image_phash w"
  shows "fingerprinted w' f hs = fingerprinted w f hs"
  using assms by (simp add: fingerprinted_def image_files_of_def)

lemma large_components_cong:
  assumes "fingerprinted w' f hs = fingerprinted w f hs" "image_phash w' = image_phash w"
  shows "large_components w' f hs T = large_components w f hs T"
proof -
  have "similarity_graph w' f hs T = similarity_graph w f hs T"
    using assms by (simp add: similarity_graph_def similar_def)
  then show ?thesis using assms(1) by (simp add: large_components_def)
qed

subsection \<open>Progress events\<close>

lemma phase_ordered_append:
  assumes "\<forall>e \<in> set A. \<not> comparison_phase e" "\<forall>e \<in> set B. \<not> hashing_phase e"
  shows "phase_ordered (A @ B)"
  unfolding phase_ordered_def
proof (intro allI impI)
  fix i j
  assume h: "i < length (A @ B) \<and> j < length (A @ B) \<and> hashing_phase ((A @ B) ! i)
             \<and> comparison_phase ((A @ B) ! j)"
  have "i < length A"
  proof (rule ccontr)
    assume n: "\<not> i < length A"
    then have 1: "(A @ B) ! i = B ! (i - length A)" by (simp add: nth_append)
    have "i < length A + length B" using h by simp
    then have 2: "i - length A < length B" using n by arith
    show False using assms(2) h 1 nth_mem [OF 2] by metis
  qed
  moreover have "\<not> j < length A"
  proof
    assume "j < length A"
    then have "(A @ B) ! j = A ! j" by (simp add: nth_append)
    then show False using assms(1) h \<open>j < length A\<close> by (metis nth_mem)
  qed
  ultimately show "i < j" by simp
qed

lemma phase_ordered_no_hashing:
  assumes "\<forall>e \<in> set B. \<not> hashing_phase e"
  shows "phase_ordered B"
  using phase_ordered_append [of "[]" B] assms by simp

lemma outer_events_phase:
  "e \<in> set (outer_events ti tc n is cc) \<Longrightarrow> comparison_phase e \<and> \<not> hashing_phase e"
proof -
  assume e: "e \<in> set (outer_events ti tc n is cc)"
  obtain c t m where "e = (c, t, m)" by (cases e)
  with outer_events_bounds [of c t m ti tc n "is" cc] e
  show ?thesis by (auto simp: comparison_phase_def hashing_phase_def)
qed

lemma outer_events_range:
  assumes "e \<in> set (outer_events ti (n * (n - 1) div 2) n [0 ..< n] 0)"
  shows "ti \<le> fst e \<and> fst e \<le> ti + n * (n - 1) div 2"
proof -
  obtain c t m where e: "e = (c, t, m)" by (cases e)
  from outer_events_bounds [of c t m ti "n * (n - 1) div 2" n "[0 ..< n]" 0] assms e
  show ?thesis by (simp add: sum_remaining)
qed

lemma main_events:
  assumes "\<not> fatal w f" "run_hashes w f hs \<noteq> []"
  shows "progress_events (fst (find_similar_images w f hs T True)) =
     ((0, length (run_images w f) * 2, HashingStart (length (run_images w f)))
        # map (\<lambda>k. (k, length (run_images w f) * 2, HashingStep k (length (run_images w f))))
            [Suc 0 ..< Suc (length (run_images w f))])
     @ (outer_events (length (run_images w f))
          (length (run_hashes w f hs) * (length (run_hashes w f hs) - 1) div 2)
          (length (run_hashes w f hs)) [0 ..< length (run_hashes w f hs)] 0
        @ [(length (run_images w f)
              + length (run_hashes w f hs) * (length (run_hashes w f hs) - 1) div 2,
            length (run_images w f)
              + length (run_hashes w f hs) * (length (run_hashes w f hs) - 1) div 2,
            Concluded (length (run_groups w f hs T)))])"
  by (simp add: find_similar_images_main [OF assms] hashing_loop_progress build_graph_progress
        del: upt_Suc)

lemma unhashed_events:
  assumes "\<not> fatal w f" "run_images w f \<noteq> []" "run_hashes w f hs = []"
  shows "progress_events (fst (find_similar_images w f hs T True)) =
     ((0, length (run_images w f) * 2, HashingStart (length (run_images w f)))
        # map (\<lambda>k. (k, length (run_images w f) * 2, HashingStep k (length (run_images w f))))
            [Suc 0 ..< Suc (length (run_images w f))])
     @ [(length (run_images w f) * 2, length (run_images w f) * 2, NothingProcessed)]"
  by (simp add: find_similar_images_unhashed [OF assms] hashing_loop_progress del: upt_Suc)

lemma no_callback_no_events: "progress_events (fst (find_similar_images w f hs T False)) = []"
proof (cases "fatal w f")
  case True
  then show ?thesis by (simp add: find_similar_images_fatal)
next
  case nf: False
  show ?thesis
  proof (cases "run_hashes w f hs = []")
    case False
    then show ?thesis using nf
      by (simp add: find_similar_images_main hashing_loop_progress build_graph_progress)
  next
    case True
    show ?thesis
    proof (cases "run_images w f = []")
      case True
      then show ?thesis using nf by (simp add: find_similar_images_empty)
    next
      case False
      then show ?thesis using nf True
        by (simp add: find_similar_images_unhashed hashing_loop_progress)
    qed
  qed
qed

lemma hashing_events_props:
  fixes N :: nat
  defines "A \<equiv> (0, N * 2, HashingStart N) # map (\<lambda>k. (k, N * 2, HashingStep k N)) [Suc 0 ..< Suc N]"
  shows "sorted (map fst A)" "\<forall>e \<in> set A. fst e \<le> N" "\<forall>e \<in> set A. \<not> comparison_phase e"
proof -
  have m: "map fst A = 0 # [Suc 0 ..< Suc N]"
    unfolding A_def by (simp add: comp_def del: upt_Suc)
  show "sorted (map fst A)" unfolding m by (simp del: upt_Suc)
  show "\<forall>e \<in> set A. fst e \<le> N" unfolding A_def by (auto simp del: upt_Suc)
  show "\<forall>e \<in> set A. \<not> comparison_phase e"
    unfolding A_def by (auto simp: comparison_phase_def simp del: upt_Suc)
qed

lemma sorted_append_le:
  fixes xs ys :: "nat list"
  assumes "sorted xs" "sorted ys" "\<forall>x \<in> set xs. x \<le> b" "\<forall>y \<in> set ys. b \<le> y"
  shows "sorted (xs @ ys)"
  using assms by (fastforce simp: sorted_append)

subsection \<open>File names\<close>

lemma endswith1_iff: "endswith1 s t \<longleftrightarrow> (\<exists>stem. s = stem @ t)"
proof
  assume "endswith1 s t"
  then have "s = take (length s - length t) s @ t"
    unfolding endswith1_def by (metis append_take_drop_id)
  then show "\<exists>stem. s = stem @ t" ..
next
  assume "\<exists>stem. s = stem @ t"
  then show "endswith1 s t" by (auto simp: endswith1_def)
qed

lemma lower_endswith:
  "endswith1 (lower name) ext \<longleftrightarrow> (\<exists>stem tail. name = stem @ tail \<and> lower tail = ext)"
  unfolding endswith1_iff lower_def by (auto simp: map_eq_append_conv)

lemma supported_lower: "ext \<in> set supported_formats \<Longrightarrow> lower ext = ext"
  unfolding supported_formats_def
  by (auto simp: lower_def lower_char_def)

lemma is_candidate_iff:
  "is_candidate name \<longleftrightarrow>
     (\<exists>ext \<in> {''.png'', ''.jpg'', ''.jpeg'', ''.bmp'', ''.gif'', ''.tiff'', ''.webp''}.
        ends_with_ci name ext)"
proof -
  have s: "set supported_formats
             = {''.png'', ''.jpg'', ''.jpeg'', ''.bmp'', ''.gif'', ''.tiff'', ''.webp''}"
    by (simp add: supported_formats_def)
  have "is_candidate name \<longleftrightarrow> (\<exists>ext \<in> set supported_formats. endswith1 (lower name) ext)"
    by (simp add: is_candidate_def endswith_def list_ex_iff)
  also have "\<dots> \<longleftrightarrow> (\<exists>ext \<in> set supported_formats. ends_with_ci name ext)"
    using supported_lower by (simp add: lower_endswith ends_with_ci_def)
  finally show ?thesis unfolding s .
qed

lemma image_files_candidates:
  "set (image_files_of folder_path all_files) = candidate_paths folder_path all_files"
  unfolding image_files_of_def candidate_paths_def is_candidate_iff [symmetric] by auto

subsection \<open>The worker\<close>

lemma report_progress_stop:
  "report_progress (Some s) k tr = report_progress None k (take (s - k) tr)"
proof (induction tr arbitrary: k)
  case Nil
  then show ?case by simp
next
  case (Cons a tr)
  show ?case
  proof (cases "k < s")
    case True
    then obtain d where d: "s - k = Suc d" "s - (k + 1) = d"
      by (cases "s - k") auto
    have t: "take (s - k) (a # tr) = a # take (s - (k + 1)) tr"
      unfolding d by simp
    show ?thesis unfolding t using True Cons.IH [of "k + 1"]
      by (cases a) (simp_all add: is_running_def)
  next
    case False
    then have "report_progress None (k + 1) (take (s - (k + 1)) tr) = []" by simp
    then have "report_progress (Some s) (k + 1) tr = []" using Cons.IH [of "k + 1"] by simp
    then show ?thesis using False by (cases a) (simp_all add: is_running_def)
  qed
qed

lemma report_progress_only_progress:
  "sig \<in> set (report_progress stop_at k tr) \<Longrightarrow> \<exists>c t m. sig = ProgressSignal c t m"
  by (induction stop_at k tr rule: report_progress.induct) (auto split: if_splits)

lemma ScanWorker_run_stopped:
  assumes "s \<le> length (fst (find_similar_images w f hs T True))"
  shows "ScanWorker_run w f hs T (Some s)
           = report_progress None 0 (take s (fst (find_similar_images w f hs T True)))"
proof -
  obtain tr r where run: "find_similar_images w f hs T True = (tr, r)"
    by (cases "find_similar_images w f hs T True")
  have s: "s \<le> length tr" using assms run by simp
  then have "\<not> is_running (Some s) (length tr)" "\<not> is_running (Some s) (length tr + 1)"
    by (simp_all add: is_running_def)
  then show ?thesis
    by (simp add: ScanWorker_run_def run report_progress_stop Let_def
          split: sum.splits option.splits)
qed

section \<open>The claims\<close>

subsection \<open>Groups are the connected components\<close>

text \<open>
  Claim C1. Whenever \<^verbatim>\<open>find_similar_images\<close> returns a mapping, the mapping has exactly
  one entry for each connected component of two or more images of the similarity graph
  over the successfully fingerprinted images: the entries are the pairs of the least
  member and the sorted list of all members of such a component, no two such components
  share their least member, the keys of the mapping are distinct, and a component of one
  image has no entry.
\<close>

theorem groups_are_large_components:
  assumes "snd (find_similar_images w folder_path hash_size T cb) = Inr (Some result)"
  shows "distinct (map fst result)
       \<and> set result = (\<lambda>C. (Min C, sorted_list_of_set C)) ` large_components w folder_path hash_size T
       \<and> inj_on Min (large_components w folder_path hash_size T)
       \<and> (\<forall>C \<in> large_components w folder_path hash_size T.
            finite C \<and> Min C \<in> C \<and> set (sorted_list_of_set C) = C
            \<and> map_of result (Min C) = Some (sorted_list_of_set C))"
proof -
  note rs = returned_groups_set [OF assms]
  have ge: "group_entry = (\<lambda>C::string set. (Min C, sorted_list_of_set C))"
    by (rule ext) (simp add: group_entry_def)
  have "\<forall>C \<in> large_components w folder_path hash_size T.
            finite C \<and> Min C \<in> C \<and> set (sorted_list_of_set C) = C
            \<and> map_of result (Min C) = Some (sorted_list_of_set C)"
  proof
    fix C assume C: "C \<in> large_components w folder_path hash_size T"
    then have CK: "C \<in> components (fingerprinted w folder_path hash_size)
                         (similarity_graph w folder_path hash_size T)"
      by (simp add: large_components_def)
    have fin: "finite C" using CK by (rule components_finite)
    have "Min C \<in> C" using fin components_nonempty [OF CK] by (rule Min_in)
    moreover have "(Min C, sorted_list_of_set C) \<in> set result"
      using rs(2) C by (auto simp: group_entry_def)
    then have "map_of result (Min C) = Some (sorted_list_of_set C)"
      using rs(1) by simp
    ultimately show "finite C \<and> Min C \<in> C \<and> set (sorted_list_of_set C) = C
            \<and> map_of result (Min C) = Some (sorted_list_of_set C)"
      using fin by simp
  qed
  then show ?thesis using rs large_components_Min_inj ge by metis
qed

theorem groups_are_large_components_witness:
  "snd (find_similar_images demo_folder ''d'' 8 1 True)
     = Inr (Some [(''d/a.PNG'', [''d/a.PNG'', ''d/b.png''])])
   \<and> set [(''d/a.PNG'', [''d/a.PNG'', ''d/b.png''])]
       = (\<lambda>C. (Min C, sorted_list_of_set C)) ` large_components demo_folder ''d'' 8 1
   \<and> inj_on Min (large_components demo_folder ''d'' 8 1)
   \<and> {''d/a.PNG'', ''d/b.png''} \<in> large_components demo_folder ''d'' 8 1
   \<and> map_of [(''d/a.PNG'', [''d/a.PNG'', ''d/b.png''])] (Min {''d/a.PNG'', ''d/b.png''})
       = Some (sorted_list_of_set {''d/a.PNG'', ''d/b.png''})"
proof -
  let ?r = "[(''d/a.PNG'', [''d/a.PNG'', ''d/b.png''])]"
  have run: "snd (find_similar_images demo_folder ''d'' 8 1 True) = Inr (Some ?r)"
    by code_simp
  note facts = groups_are_large_components [OF run]
  from facts have img: "set ?r = (\<lambda>C. (Min C, sorted_list_of_set C))
                                 ` large_components demo_folder ''d'' 8 1"
    and inj: "inj_on Min (large_components demo_folder ''d'' 8 1)"
    and all: "\<forall>C \<in> large_components demo_folder ''d'' 8 1.
            finite C \<and> Min C \<in> C \<and> set (sorted_list_of_set C) = C
            \<and> map_of ?r (Min C) = Some (sorted_list_of_set C)"
    by blast+
  have "(''d/a.PNG'', [''d/a.PNG'', ''d/b.png'']) \<in> set ?r" by simp
  then have "(''d/a.PNG'', [''d/a.PNG'', ''d/b.png''])
          \<in> (\<lambda>C. (Min C, sorted_list_of_set C)) ` large_components demo_folder ''d'' 8 1"
    unfolding img .
  then obtain C where e2: "(''d/a.PNG'', [''d/a.PNG'', ''d/b.png''])
                             = (Min C, sorted_list_of_set C)"
    and C: "C \<in> large_components demo_folder ''d'' 8 1" by (rule imageE)
  have e: "sorted_list_of_set C = [''d/a.PNG'', ''d/b.png'']"
    using e2 [symmetric] by (rule Pair_inject)
  have "set (sorted_list_of_set C) = C" using bspec [OF all C] by simp
  then have "C = {''d/a.PNG'', ''d/b.png''}" unfolding e by simp
  then have mem: "{''d/a.PNG'', ''d/b.png''} \<in> large_components demo_folder ''d'' 8 1"
    using C by simp
  have look: "map_of ?r (Min {''d/a.PNG'', ''d/b.png''})
       = Some (sorted_list_of_set {''d/a.PNG'', ''d/b.png''})"
    using bspec [OF all mem] by (elim conjE)
  show ?thesis by (intro conjI run img inj mem look)
qed

subsection \<open>The similarity graph\<close>

text \<open>
  Claim C2. The graph builder compares every unordered pair of fingerprinted images
  exactly once (the list of comparisons has no repetition, never holds a pair in both
  orders, and holds every pair of distinct images in one order), and the adjacency it
  builds links \<open>a\<close> to \<open>b\<close> exactly when they are distinct fingerprinted images whose
  Hamming distance is at most the threshold, in both directions alike.
\<close>

theorem graph_builder_pairs_and_edges:
  assumes "distinct (map fst hashes)"
  shows "\<exists>adj. snd (build_graph hashes T cb total_images)
                 = Inr (adj, length hashes * (length hashes - 1) div 2)
     \<and> distinct (compared_pairs (fst (build_graph hashes T cb total_images)))
     \<and> length (compared_pairs (fst (build_graph hashes T cb total_images)))
         = length hashes * (length hashes - 1) div 2
     \<and> (\<forall>(a, b) \<in> set (compared_pairs (fst (build_graph hashes T cb total_images))).
           a \<in> fst ` set hashes \<and> b \<in> fst ` set hashes \<and> a \<noteq> b
           \<and> (b, a) \<notin> set (compared_pairs (fst (build_graph hashes T cb total_images))))
     \<and> (\<forall>a \<in> fst ` set hashes. \<forall>b \<in> fst ` set hashes. a \<noteq> b \<longrightarrow>
           (a, b) \<in> set (compared_pairs (fst (build_graph hashes T cb total_images)))
           \<or> (b, a) \<in> set (compared_pairs (fst (build_graph hashes T cb total_images))))
     \<and> (\<forall>a b. (a, b) \<in> edges_of adj \<longleftrightarrow>
           a \<in> fst ` set hashes \<and> b \<in> fst ` set hashes \<and> a \<noteq> b
           \<and> (\<exists>ha hb. map_of hashes a = Some ha \<and> map_of hashes b = Some hb
                       \<and> int (hamming ha hb) \<le> T))
     \<and> (\<forall>a b. (a, b) \<in> edges_of adj \<longleftrightarrow> (b, a) \<in> edges_of adj)"
proof -
  let ?cmp = "compared_pairs (fst (build_graph hashes T cb total_images))"
  let ?adj = "the_graph hashes T"
  have cmp: "?cmp = pairs_of (map fst hashes)" by (rule build_graph_compared)
  have 1: "snd (build_graph hashes T cb total_images)
             = Inr (?adj, length hashes * (length hashes - 1) div 2)"
    by (rule build_graph_snd)
  have 2: "distinct ?cmp" unfolding cmp using assms by (rule pairs_of_distinct)
  have 3: "length ?cmp = length hashes * (length hashes - 1) div 2"
    unfolding cmp by (simp add: length_pairs_of)
  have 4: "\<forall>(a, b) \<in> set ?cmp. a \<in> fst ` set hashes \<and> b \<in> fst ` set hashes \<and> a \<noteq> b
             \<and> (b, a) \<notin> set ?cmp"
  proof (intro ballI)
    fix e assume e: "e \<in> set ?cmp"
    obtain a b where ab: "e = (a, b)" by (cases e)
    have in_p: "(a, b) \<in> set (pairs_of (map fst hashes))" using e ab cmp by simp
    have "a \<in> set (map fst hashes) \<and> b \<in> set (map fst hashes)"
      using in_p by (rule pairs_of_subset)
    moreover have "a \<noteq> b \<and> (b, a) \<notin> set (pairs_of (map fst hashes))"
      using assms in_p by (rule pairs_of_irrefl)
    ultimately show "case e of (a, b) \<Rightarrow> a \<in> fst ` set hashes \<and> b \<in> fst ` set hashes
        \<and> a \<noteq> b \<and> (b, a) \<notin> set ?cmp"
      unfolding ab cmp by simp
  qed
  have 5: "\<forall>a \<in> fst ` set hashes. \<forall>b \<in> fst ` set hashes. a \<noteq> b \<longrightarrow>
             (a, b) \<in> set ?cmp \<or> (b, a) \<in> set ?cmp"
    unfolding cmp using pairs_of_total [of _ "map fst hashes"] by simp
  have e: "edges_of ?adj = {(a, b). a \<in> fst ` set hashes \<and> b \<in> fst ` set hashes \<and> a \<noteq> b
                    \<and> close_enough hashes T a b}"
    using assms by (rule edges_of_the_graph)
  have 6: "\<forall>a b. (a, b) \<in> edges_of ?adj \<longleftrightarrow>
           a \<in> fst ` set hashes \<and> b \<in> fst ` set hashes \<and> a \<noteq> b
           \<and> (\<exists>ha hb. map_of hashes a = Some ha \<and> map_of hashes b = Some hb
                       \<and> int (hamming ha hb) \<le> T)"
    unfolding e by (simp add: close_enough_def)
  have 7: "\<forall>a b. (a, b) \<in> edges_of ?adj \<longleftrightarrow> (b, a) \<in> edges_of ?adj"
    using sym_the_graph [OF assms, of T] by (auto dest: symD)
  show ?thesis by (intro exI [of _ ?adj] conjI 1 2 3 4 5 6 7)
qed

theorem graph_builder_pairs_and_edges_witness:
  "distinct (map fst sample_hashes)
   \<and> (\<exists>adj. snd (build_graph sample_hashes 1 True 3)
                 = Inr (adj, length sample_hashes * (length sample_hashes - 1) div 2)
     \<and> distinct (compared_pairs (fst (build_graph sample_hashes 1 True 3)))
     \<and> length (compared_pairs (fst (build_graph sample_hashes 1 True 3)))
         = length sample_hashes * (length sample_hashes - 1) div 2
     \<and> (\<forall>(a, b) \<in> set (compared_pairs (fst (build_graph sample_hashes 1 True 3))).
           a \<in> fst ` set sample_hashes \<and> b \<in> fst ` set sample_hashes \<and> a \<noteq> b
           \<and> (b, a) \<notin> set (compared_pairs (fst (build_graph sample_hashes 1 True 3))))
     \<and> (\<forall>a \<in> fst ` set sample_hashes. \<forall>b \<in> fst ` set sample_hashes. a \<noteq> b \<longrightarrow>
           (a, b) \<in> set (compared_pairs (fst (build_graph sample_hashes 1 True 3)))
           \<or> (b, a) \<in> set (compared_pairs (fst (build_graph sample_hashes 1 True 3))))
     \<and> (\<forall>a b. (a, b) \<in> edges_of adj \<longleftrightarrow>
           a \<in> fst ` set sample_hashes \<and> b \<in> fst ` set sample_hashes \<and> a \<noteq> b
           \<and> (\<exists>ha hb. map_of sample_hashes a = Some ha \<and> map_of sample_hashes b = Some hb
                       \<and> int (hamming ha hb) \<le> 1))
     \<and> (\<forall>a b. (a, b) \<in> edges_of adj \<longleftrightarrow> (b, a) \<in> edges_of adj))"
proof -
  have d: "distinct (map fst sample_hashes)" by (simp add: sample_hashes_def)
  show ?thesis by (intro conjI d graph_builder_pairs_and_edges [OF d])
qed

subsection \<open>The groups form a partition\<close>

text \<open>
  Claim C3. In every returned mapping the groups form a partition: every value list has
  two or more members, is sorted and free of duplicates, holds only paths that have a
  fingerprint, and the value lists of two distinct keys share no path.
\<close>

theorem groups_form_partition:
  assumes "snd (find_similar_images w folder_path hash_size T cb) = Inr (Some result)"
  shows "distinct (map fst result)
       \<and> (\<forall>(k, vs) \<in> set result.
             2 \<le> length vs \<and> sorted vs \<and> distinct vs
             \<and> (\<forall>p \<in> set vs. image_phash w p hash_size \<noteq> None))
       \<and> (\<forall>(k, vs) \<in> set result. \<forall>(k', vs') \<in> set result.
             k \<noteq> k' \<longrightarrow> set vs \<inter> set vs' = {})"
proof -
  have 1: "distinct (map fst result)" using returned_groups_set(1) [OF assms] .
  have 2: "2 \<le> length vs \<and> sorted vs \<and> distinct vs
             \<and> (\<forall>p \<in> set vs. image_phash w p hash_size \<noteq> None)"
    if "(k, vs) \<in> set result" for k vs
  proof -
    from group_entry_members [OF assms that] obtain C where
      C: "C \<in> large_components w folder_path hash_size T" "finite C"
         "C \<subseteq> fingerprinted w folder_path hash_size"
         "vs = sorted_list_of_set C" "set vs = C" "length vs = card C" by blast
    have a: "2 \<le> length vs" using C(1,6) by (simp add: large_components_def)
    have b: "sorted vs" "distinct vs" using C(4) by simp_all
    have "\<forall>p \<in> set vs. image_phash w p hash_size \<noteq> None"
      using C(3,5) by (auto simp: fingerprinted_run_images)
    with a b show ?thesis by blast
  qed
  have 3: "set vs \<inter> set vs' = {}"
    if e: "(k, vs) \<in> set result" "(k', vs') \<in> set result" and ne: "k \<noteq> k'" for k vs k' vs'
  proof (rule ccontr)
    assume "set vs \<inter> set vs' \<noteq> {}"
    then obtain x where x: "x \<in> set vs" "x \<in> set vs'" by blast
    from group_entry_members [OF assms e(1)] obtain C where
      C: "C \<in> large_components w folder_path hash_size T" "k = Min C" "set vs = C" by blast
    from group_entry_members [OF assms e(2)] obtain D where
      D: "D \<in> large_components w folder_path hash_size T" "k' = Min D" "set vs' = D" by blast
    have "C \<inter> D \<noteq> {}" using x C(3) D(3) by blast
    moreover have "C \<in> components (fingerprinted w folder_path hash_size)
                         (similarity_graph w folder_path hash_size T)"
      "D \<in> components (fingerprinted w folder_path hash_size)
                         (similarity_graph w folder_path hash_size T)"
      using C(1) D(1) by (simp_all add: large_components_def)
    ultimately have "C = D"
      using components_disjoint [OF sym_similarity_graph] by blast
    then show False using ne C(2) D(2) by simp
  qed
  show ?thesis using 1 2 3 by blast
qed

theorem groups_form_partition_witness:
  "snd (find_similar_images demo_folder ''d'' 8 1 True)
     = Inr (Some [(''d/a.PNG'', [''d/a.PNG'', ''d/b.png''])])
   \<and> distinct (map fst [(''d/a.PNG'', [''d/a.PNG'', ''d/b.png''])])
   \<and> 2 \<le> length [''d/a.PNG'', ''d/b.png'']
   \<and> sorted [''d/a.PNG'', ''d/b.png''] \<and> distinct [''d/a.PNG'', ''d/b.png'']
   \<and> image_phash demo_folder ''d/a.PNG'' 8 \<noteq> None
   \<and> image_phash demo_folder ''d/b.png'' 8 \<noteq> None"
proof -
  have run: "snd (find_similar_images demo_folder ''d'' 8 1 True)
     = Inr (Some [(''d/a.PNG'', [''d/a.PNG'', ''d/b.png''])])"
    by code_simp
  from groups_form_partition [OF run]
  have "\<forall>(k, vs) \<in> set [(''d/a.PNG'', [''d/a.PNG'', ''d/b.png''])].
          2 \<le> length vs \<and> sorted vs \<and> distinct vs
          \<and> (\<forall>p \<in> set vs. image_phash demo_folder p 8 \<noteq> None)"
    and d: "distinct (map fst [(''d/a.PNG'', [''d/a.PNG'', ''d/b.png''])])"
    by blast+
  then have "2 \<le> length [''d/a.PNG'', ''d/b.png'']
      \<and> sorted [''d/a.PNG'', ''d/b.png''] \<and> distinct [''d/a.PNG'', ''d/b.png'']
      \<and> (\<forall>p \<in> set [''d/a.PNG'', ''d/b.png'']. image_phash demo_folder p 8 \<noteq> None)"
    by (simp del: sorted_wrt.simps distinct.simps)
  then show ?thesis using run d by simp
qed

subsection \<open>Order of enumeration\<close>

text \<open>
  Claim C4. Listing the same directory entries in another order changes nothing in the
  final mapping: both runs fail alike, or both return mappings with the same keys, each
  mapped to the same sorted member list.
\<close>

theorem enumeration_order_irrelevant:
  assumes "listdir w folder_path = Inr all_files" and "mset all_files' = mset all_files"
  shows "(snd (find_similar_images w folder_path hash_size T cb) = Inr None
          \<and> snd (find_similar_images (w\<lparr>listdir := (listdir w)(folder_path := Inr all_files')\<rparr>)
                 folder_path hash_size T cb) = Inr None)
       \<or> (\<exists>result result'.
            snd (find_similar_images w folder_path hash_size T cb) = Inr (Some result)
          \<and> snd (find_similar_images (w\<lparr>listdir := (listdir w)(folder_path := Inr all_files')\<rparr>)
                 folder_path hash_size T cb) = Inr (Some result')
          \<and> map_of result' = map_of result \<and> set result' = set result)"
proof -
  let ?w' = "w\<lparr>listdir := (listdir w)(folder_path := Inr all_files')\<rparr>"
  have l': "listdir ?w' folder_path = Inr all_files'" by simp
  have s: "set all_files' = set all_files" using assms(2) by (rule mset_eq_setD)
  have f: "fatal ?w' folder_path = fatal w folder_path"
    using assms(1) by (simp add: fatal_def)
  show ?thesis
  proof (cases "fatal w folder_path")
    case True
    then show ?thesis using f by (simp add: find_similar_images_returns)
  next
    case False
    let ?r = "run_groups w folder_path hash_size T"
    let ?r' = "run_groups ?w' folder_path hash_size T"
    have r: "snd (find_similar_images w folder_path hash_size T cb) = Inr (Some ?r)"
      using False by (simp add: find_similar_images_returns)
    have r': "snd (find_similar_images ?w' folder_path hash_size T cb) = Inr (Some ?r')"
      using False f by (simp add: find_similar_images_returns)
    have V: "fingerprinted ?w' folder_path hash_size = fingerprinted w folder_path hash_size"
      using assms(1) l' s by (rule fingerprinted_cong) simp
    have "large_components ?w' folder_path hash_size T = large_components w folder_path hash_size T"
      using V by (rule large_components_cong) simp
    then have eq: "set ?r' = set ?r"
      using returned_groups_set(2) [OF r] returned_groups_set(2) [OF r'] by simp
    then have "map_of ?r' = map_of ?r"
      using returned_groups_set(1) [OF r] returned_groups_set(1) [OF r']
      by (simp add: map_of_inject_set)
    then show ?thesis using r r' eq by blast
  qed
qed

theorem enumeration_order_irrelevant_witness:
  "listdir demo_folder ''d'' = Inr [''b.png'', ''a.PNG'', ''c.jpg'', ''notes.txt'', ''e.gif'']
   \<and> mset [''e.gif'', ''c.jpg'', ''notes.txt'', ''a.PNG'', ''b.png'']
       = mset [''b.png'', ''a.PNG'', ''c.jpg'', ''notes.txt'', ''e.gif'']
   \<and> ((snd (find_similar_images demo_folder ''d'' 8 1 True) = Inr None
          \<and> snd (find_similar_images (demo_folder\<lparr>listdir := (listdir demo_folder)
                    (''d'' := Inr [''e.gif'', ''c.jpg'', ''notes.txt'', ''a.PNG'', ''b.png''])\<rparr>)
                 ''d'' 8 1 True) = Inr None)
       \<or> (\<exists>result result'.
            snd (find_similar_images demo_folder ''d'' 8 1 True) = Inr (Some result)
          \<and> snd (find_similar_images (demo_folder\<lparr>listdir := (listdir demo_folder)
                    (''d'' := Inr [''e.gif'', ''c.jpg'', ''notes.txt'', ''a.PNG'', ''b.png''])\<rparr>)
                 ''d'' 8 1 True) = Inr (Some result')
          \<and> map_of result' = map_of result \<and> set result' = set result))"
proof -
  have 1: "listdir demo_folder ''d''
             = Inr [''b.png'', ''a.PNG'', ''c.jpg'', ''notes.txt'', ''e.gif'']"
    by (simp add: demo_folder_def)
  have 2: "mset [''e.gif'', ''c.jpg'', ''notes.txt'', ''a.PNG'', ''b.png'']
            = mset [''b.png'', ''a.PNG'', ''c.jpg'', ''notes.txt'', ''e.gif'']"
    by simp
  show ?thesis by (intro conjI 1 2 enumeration_order_irrelevant [OF 1 2])
qed

subsection \<open>Raising the threshold\<close>

text \<open>
  Claim C5. For a fixed folder and two thresholds \<open>T1 < T2\<close>, every group returned at
  \<open>T1\<close> is contained in a group returned at \<open>T2\<close>, which is therefore at least as
  large: raising the threshold merges groups or adds members and never splits a group.
\<close>

theorem raising_threshold_coarsens:
  assumes "T1 < T2"
    and "snd (find_similar_images w folder_path hash_size T1 cb) = Inr (Some result1)"
    and "snd (find_similar_images w folder_path hash_size T2 cb) = Inr (Some result2)"
  shows "\<forall>(k1, vs1) \<in> set result1. \<exists>(k2, vs2) \<in> set result2.
           set vs1 \<subseteq> set vs2 \<and> length vs1 \<le> length vs2"
proof (clarify)
  fix k1 vs1 assume "(k1, vs1) \<in> set result1"
  from group_entry_members [OF assms(2) this] obtain C where
    C: "C \<in> large_components w folder_path hash_size T1" "set vs1 = C" "length vs1 = card C"
    by blast
  let ?V = "fingerprinted w folder_path hash_size"
  let ?G1 = "similarity_graph w folder_path hash_size T1"
  let ?G2 = "similarity_graph w folder_path hash_size T2"
  from C(1) obtain a where a: "a \<in> ?V" "C = component ?G1 a" and big: "2 \<le> card C"
    by (auto simp: large_components_def components_def)
  let ?D = "component ?G2 a"
  have DK: "?D \<in> components ?V ?G2" using a(1) by (auto simp: components_def)
  have fin: "finite ?D" using DK by (rule components_finite)
  have sub: "C \<subseteq> ?D"
    unfolding a(2) using assms(1) by (intro component_mono similarity_graph_mono) simp
  then have card: "card C \<le> card ?D" using fin by (rule card_mono [rotated])
  then have "?D \<in> large_components w folder_path hash_size T2"
    using DK big by (simp add: large_components_def)
  then have "group_entry ?D \<in> set result2"
    using returned_groups_set(2) [OF assms(3)] by blast
  moreover have "set (sorted_list_of_set ?D) = ?D" "length (sorted_list_of_set ?D) = card ?D"
    using fin by simp_all
  ultimately show "\<exists>(k2, vs2) \<in> set result2. set vs1 \<subseteq> set vs2 \<and> length vs1 \<le> length vs2"
    using sub card C(2,3) by (intro bexI [of _ "group_entry ?D"]) (simp_all add: group_entry_def)
qed

theorem raising_threshold_coarsens_witness:
  "(1::int) < 8
   \<and> snd (find_similar_images demo_folder ''d'' 8 1 True)
       = Inr (Some [(''d/a.PNG'', [''d/a.PNG'', ''d/b.png''])])
   \<and> snd (find_similar_images demo_folder ''d'' 8 8 True)
       = Inr (Some [(''d/a.PNG'', [''d/a.PNG'', ''d/b.png'', ''d/c.jpg''])])
   \<and> (\<exists>(k2, vs2) \<in> set [(''d/a.PNG'', [''d/a.PNG'', ''d/b.png'', ''d/c.jpg''])].
         set [''d/a.PNG'', ''d/b.png''] \<subseteq> set vs2
         \<and> length [''d/a.PNG'', ''d/b.png''] \<le> length vs2)"
proof -
  have lt: "(1::int) < 8" by simp
  have run1: "snd (find_similar_images demo_folder ''d'' 8 1 True)
       = Inr (Some [(''d/a.PNG'', [''d/a.PNG'', ''d/b.png''])])"
    by code_simp
  have run2: "snd (find_similar_images demo_folder ''d'' 8 8 True)
       = Inr (Some [(''d/a.PNG'', [''d/a.PNG'', ''d/b.png'', ''d/c.jpg''])])"
    by code_simp
  have "(''d/a.PNG'', [''d/a.PNG'', ''d/b.png''])
          \<in> set [(''d/a.PNG'', [''d/a.PNG'', ''d/b.png''])]" by simp
  with raising_threshold_coarsens [OF lt run1 run2]
  have "case (''d/a.PNG'', [''d/a.PNG'', ''d/b.png'']) of
          (k1, vs1) \<Rightarrow>
            \<exists>(k2, vs2) \<in> set [(''d/a.PNG'', [''d/a.PNG'', ''d/b.png'', ''d/c.jpg''])].
              set vs1 \<subseteq> set vs2 \<and> length vs1 \<le> length vs2"
    by (rule bspec)
  then have "\<exists>(k2, vs2) \<in> set [(''d/a.PNG'', [''d/a.PNG'', ''d/b.png'', ''d/c.jpg''])].
         set [''d/a.PNG'', ''d/b.png''] \<subseteq> set vs2
         \<and> length [''d/a.PNG'', ''d/b.png''] \<le> length vs2"
    by (simp only: prod.case)
  then show ?thesis by (intro conjI lt run1 run2)
qed

subsection \<open>Failure and empty results\<close>

text \<open>
  Claim C6. \<^verbatim>\<open>find_similar_images\<close> returns \<^verbatim>\<open>None\<close> exactly when the folder is not a
  directory or listing it raises; in every other case it returns a mapping (no exception
  leaves it), and the mapping is empty when there is no candidate file, when no candidate
  yields a fingerprint, and when no two fingerprinted images are within the threshold.
\<close>

theorem none_only_on_fatal_path:
  "(snd (find_similar_images w folder_path hash_size T cb) = Inr None
      \<longleftrightarrow> \<not> isdir w folder_path \<or> (\<exists>e. listdir w folder_path = Inl e))
   \<and> (\<forall>all_files. isdir w folder_path \<and> listdir w folder_path = Inr all_files \<longrightarrow>
        (\<exists>result. snd (find_similar_images w folder_path hash_size T cb) = Inr (Some result))
        \<and> (image_files_of folder_path all_files = [] \<longrightarrow>
             snd (find_similar_images w folder_path hash_size T cb) = Inr (Some []))
        \<and> ((\<forall>p \<in> set (image_files_of folder_path all_files). image_phash w p hash_size = None) \<longrightarrow>
             snd (find_similar_images w folder_path hash_size T cb) = Inr (Some []))
        \<and> (similarity_graph w folder_path hash_size T = {} \<longrightarrow>
             snd (find_similar_images w folder_path hash_size T cb) = Inr (Some [])))"
proof -
  let ?r = "snd (find_similar_images w folder_path hash_size T cb)"
  have ret: "?r = (if fatal w folder_path then Inr None
                   else Inr (Some (run_groups w folder_path hash_size T)))"
    by (rule find_similar_images_returns)
  have 1: "?r = Inr None \<longleftrightarrow> \<not> isdir w folder_path \<or> (\<exists>e. listdir w folder_path = Inl e)"
    unfolding ret by (simp add: fatal_def)
  have 2: "(\<exists>result. ?r = Inr (Some result))
        \<and> (image_files_of folder_path all_files = [] \<longrightarrow> ?r = Inr (Some []))
        \<and> ((\<forall>p \<in> set (image_files_of folder_path all_files). image_phash w p hash_size = None)
             \<longrightarrow> ?r = Inr (Some []))
        \<and> (similarity_graph w folder_path hash_size T = {} \<longrightarrow> ?r = Inr (Some []))"
    if ok: "isdir w folder_path \<and> listdir w folder_path = Inr all_files" for all_files
  proof -
    have nf: "\<not> fatal w folder_path" using ok by (simp add: fatal_def)
    have r: "?r = Inr (Some (run_groups w folder_path hash_size T))" using ret nf by simp
    have V: "fingerprinted w folder_path hash_size
               = {p \<in> set (image_files_of folder_path all_files). image_phash w p hash_size \<noteq> None}"
      using ok by (simp add: fingerprinted_def)
    have none: "run_groups w folder_path hash_size T = []"
      if "fingerprinted w folder_path hash_size = {}"
    proof -
      have "similarity_graph w folder_path hash_size T = {}"
        using that by (auto simp: similarity_graph_def)
      then show ?thesis by (rule no_edges_no_groups)
    qed
    have a: "image_files_of folder_path all_files = [] \<longrightarrow> ?r = Inr (Some [])"
      using none V r by simp
    have b: "(\<forall>p \<in> set (image_files_of folder_path all_files). image_phash w p hash_size = None)
             \<longrightarrow> ?r = Inr (Some [])"
      using none V r by simp
    have c: "similarity_graph w folder_path hash_size T = {} \<longrightarrow> ?r = Inr (Some [])"
      using no_edges_no_groups [of w folder_path hash_size T] r by simp
    show ?thesis using r a b c by blast
  qed
  show ?thesis using 1 2 by blast
qed

theorem none_only_on_fatal_path_witness:
  "(\<exists>e. listdir unlistable_folder ''d'' = Inl e)
   \<and> snd (find_similar_images unlistable_folder ''d'' 8 5 True) = Inr None
   \<and> isdir text_only_folder ''d'' \<and> listdir text_only_folder ''d'' = Inr [''notes.txt'', ''sub'']
   \<and> image_files_of ''d'' [''notes.txt'', ''sub''] = []
   \<and> snd (find_similar_images text_only_folder ''d'' 8 5 True) = Inr (Some [])
   \<and> isdir undecodable_folder ''d''
   \<and> listdir undecodable_folder ''d'' = Inr [''broken.png'', ''x.jpeg'']
   \<and> list_all (\<lambda>p. image_phash undecodable_folder p 8 = None)
         (image_files_of ''d'' [''broken.png'', ''x.jpeg''])
   \<and> snd (find_similar_images undecodable_folder ''d'' 8 5 True) = Inr (Some [])
   \<and> isdir demo_folder ''d''
   \<and> listdir demo_folder ''d'' = Inr [''b.png'', ''a.PNG'', ''c.jpg'', ''notes.txt'', ''e.gif'']
   \<and> similarity_graph demo_folder ''d'' 8 0 = {}
   \<and> snd (find_similar_images demo_folder ''d'' 8 0 True) = Inr (Some [])"
proof -
  have 1: "\<exists>e. listdir unlistable_folder ''d'' = Inl e" by (simp add: unlistable_folder_def)
  have 2: "isdir text_only_folder ''d'' \<and> listdir text_only_folder ''d'' = Inr [''notes.txt'', ''sub'']"
    by (simp add: text_only_folder_def)
  have 3: "image_files_of ''d'' [''notes.txt'', ''sub''] = []" by code_simp
  have 4: "isdir undecodable_folder ''d''
           \<and> listdir undecodable_folder ''d'' = Inr [''broken.png'', ''x.jpeg'']"
    by (simp add: undecodable_folder_def)
  have 5: "\<forall>p \<in> set (image_files_of ''d'' [''broken.png'', ''x.jpeg'']).
         image_phash undecodable_folder p 8 = None"
    by (simp add: undecodable_folder_def)
  note A = none_only_on_fatal_path [of unlistable_folder "''d''" 8 5 True]
  note B = none_only_on_fatal_path [of text_only_folder "''d''" 8 5 True]
  note C = none_only_on_fatal_path [of undecodable_folder "''d''" 8 5 True]
  have a: "snd (find_similar_images unlistable_folder ''d'' 8 5 True) = Inr None"
    using A 1 by blast
  have b: "snd (find_similar_images text_only_folder ''d'' 8 5 True) = Inr (Some [])"
    using B 2 3 by blast
  have c: "snd (find_similar_images undecodable_folder ''d'' 8 5 True) = Inr (Some [])"
    using C 4 5 by blast
  have 6: "isdir demo_folder ''d''
           \<and> listdir demo_folder ''d'' = Inr [''b.png'', ''a.PNG'', ''c.jpg'', ''notes.txt'', ''e.gif'']"
    by (simp add: demo_folder_def)
  have 7: "similarity_graph demo_folder ''d'' 8 0 = {}"
    unfolding no_edges_iff by code_simp
  note D = none_only_on_fatal_path [of demo_folder "''d''" 8 0 True]
  have d: "snd (find_similar_images demo_folder ''d'' 8 0 True) = Inr (Some [])"
    using D 6 7 by blast
  have nf: "list_all (\<lambda>p. image_phash undecodable_folder p 8 = None)
         (image_files_of ''d'' [''broken.png'', ''x.jpeg''])"
    using 5 by (simp only: list_all_iff)
  show ?thesis using 1 2 3 4 nf 6 7 a b c d by blast
qed

subsection \<open>Progress events of a scan\<close>

text \<open>
  Claim C7. The progress events delivered to the callback during one scan never decrease
  in \<open>current\<close>, every hashing-phase event comes before every comparison-phase event,
  and when the scan returns a mapping the last event has \<open>current = total\<close>.
\<close>

theorem progress_monotone_and_phased:
  "sorted (map fst (delivered_events w folder_path hash_size T))
   \<and> phase_ordered (delivered_events w folder_path hash_size T)
   \<and> ((\<exists>result. snd (find_similar_images w folder_path hash_size T True) = Inr (Some result))
        \<longrightarrow> delivered_events w folder_path hash_size T \<noteq> []
            \<and> fst (last (delivered_events w folder_path hash_size T))
                = fst (snd (last (delivered_events w folder_path hash_size T))))"
proof (cases "fatal w folder_path")
  case True
  then have "delivered_events w folder_path hash_size T =
    [(0, 1, if \<not> isdir w folder_path then FolderNotFound folder_path
            else ListingFailed (projl (listdir w folder_path)))]"
    "snd (find_similar_images w folder_path hash_size T True) = Inr None"
    by (simp_all add: delivered_events_def find_similar_images_fatal)
  then show ?thesis
    by (simp add: phase_ordered_no_hashing hashing_phase_def)
next
  case nf: False
  let ?N = "length (run_images w folder_path)"
  let ?A = "(0, ?N * 2, HashingStart ?N) # map (\<lambda>k. (k, ?N * 2, HashingStep k ?N)) [Suc 0 ..< Suc ?N]"
  note A = hashing_events_props [of ?N]
  show ?thesis
  proof (cases "run_hashes w folder_path hash_size = []")
    case False
    let ?n = "length (run_hashes w folder_path hash_size)"
    let ?tc = "?n * (?n - 1) div 2"
    let ?O = "outer_events ?N ?tc ?n [0 ..< ?n] 0"
    let ?B = "?O @ [(?N + ?tc, ?N + ?tc, Concluded (length (run_groups w folder_path hash_size T)))]"
    have ev: "delivered_events w folder_path hash_size T = ?A @ ?B"
      unfolding delivered_events_def by (rule main_events [OF nf False])
    have rng: "\<forall>e \<in> set ?O. ?N \<le> fst e \<and> fst e \<le> ?N + ?tc"
      using outer_events_range by blast
    have "sorted (map fst ?O @ [?N + ?tc])"
      using outer_events_sorted [of ?N ?tc ?n "[0 ..< ?n]" 0] rng
      by (intro sorted_append_le [where b = "?N + ?tc"]) auto
    then have sB: "sorted (map fst ?B)" by simp
    have lB: "\<forall>y \<in> set (map fst ?B). ?N \<le> y" using rng by auto
    have uA: "\<forall>x \<in> set (map fst ?A). x \<le> ?N" using A(2) by auto
    have 1: "sorted (map fst (?A @ ?B))"
      using sorted_append_le [OF A(1) sB uA lB] by (simp only: map_append)
    have "\<forall>e \<in> set ?B. \<not> hashing_phase e"
      using outer_events_phase by (auto simp: hashing_phase_def)
    with A(3) have 2: "phase_ordered (?A @ ?B)" by (rule phase_ordered_append)
    have 3: "?A @ ?B \<noteq> [] \<and> fst (last (?A @ ?B)) = fst (snd (last (?A @ ?B)))"
      by (simp del: upt_Suc)
    show ?thesis unfolding ev using 1 2 3 by blast
  next
    case True
    show ?thesis
    proof (cases "run_images w folder_path = []")
      case e: True
      have "delivered_events w folder_path hash_size T = [(1, 1, NoSupportedFiles)]"
        by (simp add: delivered_events_def find_similar_images_empty [OF nf e])
      then show ?thesis
        by (simp add: phase_ordered_no_hashing hashing_phase_def)
    next
      case ne: False
      let ?B = "[(?N * 2, ?N * 2, NothingProcessed)]"
      have ev: "delivered_events w folder_path hash_size T = ?A @ ?B"
        unfolding delivered_events_def by (rule unhashed_events [OF nf ne True])
      have uA: "\<forall>x \<in> set (map fst ?A). x \<le> ?N" using A(2) by auto
      have sB: "sorted (map fst ?B)" by simp
      have lB: "\<forall>y \<in> set (map fst ?B). ?N \<le> y" by simp
      have 1: "sorted (map fst (?A @ ?B))"
        using sorted_append_le [OF A(1) sB uA lB] by (simp only: map_append)
      have "\<forall>e \<in> set ?B. \<not> hashing_phase e" by (simp add: hashing_phase_def)
      with A(3) have 2: "phase_ordered (?A @ ?B)" by (rule phase_ordered_append)
      have 3: "?A @ ?B \<noteq> [] \<and> fst (last (?A @ ?B)) = fst (snd (last (?A @ ?B)))"
        by (simp del: upt_Suc)
      show ?thesis unfolding ev using 1 2 3 by blast
    qed
  qed
qed

theorem progress_monotone_and_phased_witness:
  "snd (find_similar_images demo_folder ''d'' 8 1 True)
     = Inr (Some [(''d/a.PNG'', [''d/a.PNG'', ''d/b.png''])])
   \<and> delivered_events demo_folder ''d'' 8 1 \<noteq> []
   \<and> fst (last (delivered_events demo_folder ''d'' 8 1))
       = fst (snd (last (delivered_events demo_folder ''d'' 8 1)))
   \<and> sorted (map fst (delivered_events demo_folder ''d'' 8 1))
   \<and> phase_ordered (delivered_events demo_folder ''d'' 8 1)"
proof -
  have run: "snd (find_similar_images demo_folder ''d'' 8 1 True)
     = Inr (Some [(''d/a.PNG'', [''d/a.PNG'', ''d/b.png''])])"
    by code_simp
  from progress_monotone_and_phased [of demo_folder "''d''" 8 1] run
  show ?thesis by blast
qed

subsection \<open>Cancellation\<close>

text \<open>
  Claim C8, as stated, fails. The stop flag is read by \<^verbatim>\<open>ScanWorker\<close> only, never by
  \<^verbatim>\<open>find_similar_images\<close>: with the flag cleared before the first action of a scan of
  folder \<open>d\<close>, all four candidate images are still opened and all three pairs still
  compared, and the worker emits no signal at all, so completion is not signalled either.
\<close>

theorem cancellation_counterexample:
  "work_started_after 0 (fst (find_similar_images demo_folder ''d'' 8 5 True))
     = [OpenImage ''d/b.png'', OpenImage ''d/a.PNG'', OpenImage ''d/c.jpg'',
        OpenImage ''d/e.gif'', Compare ''d/b.png'' ''d/a.PNG'',
        Compare ''d/b.png'' ''d/c.jpg'', Compare ''d/a.PNG'' ''d/c.jpg'']
   \<and> ScanWorker_run demo_folder ''d'' 8 5 (Some 0) = []
   \<and> \<not> cancelled_as_claimed demo_folder ''d'' 8 5 0"
  by code_simp

text \<open>
  Claim C8, amended. Once the stop flag is cleared during a scan, the worker emits
  nothing further for that scan: the signals of the run are the progress signals of the
  actions done before the flag was cleared, so there is no results signal and no
  finished signal. The scan itself is not interrupted: every candidate image is still
  opened and every pair of fingerprinted images is still compared.
\<close>

theorem stop_silences_signals_only:
  assumes "s \<le> length (fst (find_similar_images w folder_path hash_size T True))"
  shows "ScanWorker_run w folder_path hash_size T (Some s)
           = report_progress None 0
               (take s (fst (find_similar_images w folder_path hash_size T True)))
     \<and> \<not> list_ex is_results (ScanWorker_run w folder_path hash_size T (Some s))
     \<and> FinishedSignal \<notin> set (ScanWorker_run w folder_path hash_size T (Some s))
     \<and> (\<forall>all_files. isdir w folder_path \<and> listdir w folder_path = Inr all_files \<longrightarrow>
           opened_images (fst (find_similar_images w folder_path hash_size T True))
             = image_files_of folder_path all_files
           \<and> length (compared_pairs (fst (find_similar_images w folder_path hash_size T True)))
               = card (fingerprinted w folder_path hash_size)
                 * (card (fingerprinted w folder_path hash_size) - 1) div 2)"
proof -
  let ?tr = "fst (find_similar_images w folder_path hash_size T True)"
  let ?sig = "ScanWorker_run w folder_path hash_size T (Some s)"
  have 1: "?sig = report_progress None 0 (take s ?tr)"
    using assms by (rule ScanWorker_run_stopped)
  have only: "\<And>sig. sig \<in> set ?sig \<Longrightarrow> \<exists>c t m. sig = ProgressSignal c t m"
    unfolding 1 by (rule report_progress_only_progress)
  have 2: "\<not> list_ex is_results ?sig"
    using only by (fastforce simp: list_ex_iff is_results_def)
  have 3: "FinishedSignal \<notin> set ?sig" using only by fastforce
  have 4: "\<forall>all_files. isdir w folder_path \<and> listdir w folder_path = Inr all_files \<longrightarrow>
           opened_images ?tr = image_files_of folder_path all_files
           \<and> length (compared_pairs ?tr)
               = card (fingerprinted w folder_path hash_size)
                 * (card (fingerprinted w folder_path hash_size) - 1) div 2"
  proof (intro allI impI)
    fix all_files assume ok: "isdir w folder_path \<and> listdir w folder_path = Inr all_files"
    then have nf: "\<not> fatal w folder_path" by (simp add: fatal_def)
    have "run_images w folder_path = image_files_of folder_path all_files"
      using ok by (simp add: run_images_def)
    then have "opened_images ?tr = image_files_of folder_path all_files"
      using nf by (simp add: find_similar_images_opened)
    then show "opened_images ?tr = image_files_of folder_path all_files
           \<and> length (compared_pairs ?tr)
               = card (fingerprinted w folder_path hash_size)
                 * (card (fingerprinted w folder_path hash_size) - 1) div 2"
      using find_similar_images_comparisons [OF nf] by simp
  qed
  show ?thesis by (intro conjI 1 2 3 4)
qed

theorem stop_silences_signals_only_witness:
  "3 \<le> length (fst (find_similar_images demo_folder ''d'' 8 5 True))
   \<and> ScanWorker_run demo_folder ''d'' 8 5 (Some 3)
       = [ProgressSignal 0 8 (HashingStart 4), ProgressSignal 1 8 (HashingStep 1 4)]
   \<and> FinishedSignal \<notin> set (ScanWorker_run demo_folder ''d'' 8 5 (Some 3))
   \<and> \<not> list_ex is_results (ScanWorker_run demo_folder ''d'' 8 5 (Some 3))
   \<and> isdir demo_folder ''d''
   \<and> listdir demo_folder ''d'' = Inr [''b.png'', ''a.PNG'', ''c.jpg'', ''notes.txt'', ''e.gif'']
   \<and> opened_images (fst (find_similar_images demo_folder ''d'' 8 5 True))
       = image_files_of ''d'' [''b.png'', ''a.PNG'', ''c.jpg'', ''notes.txt'', ''e.gif'']
   \<and> opened_images (fst (find_similar_images demo_folder ''d'' 8 5 True))
       = [''d/b.png'', ''d/a.PNG'', ''d/c.jpg'', ''d/e.gif'']"
proof -
  have 1: "3 \<le> length (fst (find_similar_images demo_folder ''d'' 8 5 True))"
    by code_simp
  have 2: "ScanWorker_run demo_folder ''d'' 8 5 (Some 3)
       = [ProgressSignal 0 8 (HashingStart 4), ProgressSignal 1 8 (HashingStep 1 4)]"
    by code_simp
  have 3: "isdir demo_folder ''d''
     \<and> listdir demo_folder ''d'' = Inr [''b.png'', ''a.PNG'', ''c.jpg'', ''notes.txt'', ''e.gif'']"
    by (simp add: demo_folder_def)
  have 4: "opened_images (fst (find_similar_images demo_folder ''d'' 8 5 True))
       = [''d/b.png'', ''d/a.PNG'', ''d/c.jpg'', ''d/e.gif'']"
    by code_simp
  from stop_silences_signals_only [OF 1] 1 2 3 4 show ?thesis by blast
qed

subsection \<open>Candidate files\<close>

text \<open>
  Claim C9. A directory entry is a candidate exactly when its name ends, ignoring case,
  in one of the seven extensions. The images opened for fingerprinting are exactly the
  candidates, and only candidates are compared or appear in the returned groups.
\<close>

theorem only_supported_names_are_processed:
  assumes "isdir w folder_path" and "listdir w folder_path = Inr all_files"
  shows "set (image_files_of folder_path all_files) = candidate_paths folder_path all_files
     \<and> opened_images (fst (find_similar_images w folder_path hash_size T cb))
         = image_files_of folder_path all_files
     \<and> (\<forall>(a, b) \<in> set (compared_pairs (fst (find_similar_images w folder_path hash_size T cb))).
           a \<in> candidate_paths folder_path all_files \<and> b \<in> candidate_paths folder_path all_files)
     \<and> (\<forall>result. snd (find_similar_images w folder_path hash_size T cb) = Inr (Some result) \<longrightarrow>
           (\<forall>(k, vs) \<in> set result.
              k \<in> candidate_paths folder_path all_files
              \<and> set vs \<subseteq> candidate_paths folder_path all_files))"
proof -
  let ?C = "candidate_paths folder_path all_files"
  have nf: "\<not> fatal w folder_path" using assms by (simp add: fatal_def)
  have ri: "run_images w folder_path = image_files_of folder_path all_files"
    using assms(2) by (simp add: run_images_def)
  have 1: "set (image_files_of folder_path all_files) = ?C" by (rule image_files_candidates)
  have 2: "opened_images (fst (find_similar_images w folder_path hash_size T cb))
         = image_files_of folder_path all_files"
    using nf ri by (simp add: find_similar_images_opened)
  have V: "fingerprinted w folder_path hash_size \<subseteq> ?C"
    unfolding 1 [symmetric] using assms(2) by (auto simp: fingerprinted_def)
  have 3: "\<forall>(a, b) \<in> set (compared_pairs (fst (find_similar_images w folder_path hash_size T cb))).
           a \<in> ?C \<and> b \<in> ?C"
  proof (intro ballI)
    fix e assume e: "e \<in> set (compared_pairs (fst (find_similar_images w folder_path hash_size T cb)))"
    obtain a b where ab: "e = (a, b)" by (cases e)
    have "(a, b) \<in> set (pairs_of (map fst (run_hashes w folder_path hash_size)))"
      using e ab nf by (simp add: find_similar_images_compared)
    then have "a \<in> set (map fst (run_hashes w folder_path hash_size))
             \<and> b \<in> set (map fst (run_hashes w folder_path hash_size))"
      by (rule pairs_of_subset)
    then have "a \<in> fingerprinted w folder_path hash_size \<and> b \<in> fingerprinted w folder_path hash_size"
      using run_hashes_keys [of w folder_path hash_size] by simp
    then show "case e of (a, b) \<Rightarrow> a \<in> ?C \<and> b \<in> ?C" using V ab by auto
  qed
  have 4: "\<forall>result. snd (find_similar_images w folder_path hash_size T cb) = Inr (Some result) \<longrightarrow>
           (\<forall>(k, vs) \<in> set result. k \<in> ?C \<and> set vs \<subseteq> ?C)"
  proof (intro allI impI ballI)
    fix result e
    assume r: "snd (find_similar_images w folder_path hash_size T cb) = Inr (Some result)"
      and e: "e \<in> set result"
    obtain k vs where kv: "e = (k, vs)" by (cases e)
    from group_entry_members [OF r e [unfolded kv]] obtain D where
      D: "finite D" "D \<subseteq> fingerprinted w folder_path hash_size" "k = Min D" "set vs = D"
         "D \<in> large_components w folder_path hash_size T" by blast
    have "D \<noteq> {}" using D(5) by (auto simp: large_components_def)
    then have "k \<in> D" using D(1,3) by simp
    then show "case e of (k, vs) \<Rightarrow> k \<in> ?C \<and> set vs \<subseteq> ?C" using D(2,4) V kv by auto
  qed
  show ?thesis by (intro conjI 1 2 3 4)
qed

theorem only_supported_names_are_processed_witness:
  "isdir demo_folder ''d''
   \<and> listdir demo_folder ''d'' = Inr [''b.png'', ''a.PNG'', ''c.jpg'', ''notes.txt'', ''e.gif'']
   \<and> opened_images (fst (find_similar_images demo_folder ''d'' 8 5 True))
       = image_files_of ''d'' [''b.png'', ''a.PNG'', ''c.jpg'', ''notes.txt'', ''e.gif'']
   \<and> image_files_of ''d'' [''b.png'', ''a.PNG'', ''c.jpg'', ''notes.txt'', ''e.gif'']
       = [''d/b.png'', ''d/a.PNG'', ''d/c.jpg'', ''d/e.gif'']
   \<and> set (image_files_of ''d'' [''b.png'', ''a.PNG'', ''c.jpg'', ''notes.txt'', ''e.gif''])
       = candidate_paths ''d'' [''b.png'', ''a.PNG'', ''c.jpg'', ''notes.txt'', ''e.gif'']"
proof -
  have 1: "isdir demo_folder ''d''" by (simp add: demo_folder_def)
  have 2: "listdir demo_folder ''d''
             = Inr [''b.png'', ''a.PNG'', ''c.jpg'', ''notes.txt'', ''e.gif'']"
    by (simp add: demo_folder_def)
  have 3: "image_files_of ''d'' [''b.png'', ''a.PNG'', ''c.jpg'', ''notes.txt'', ''e.gif'']
       = [''d/b.png'', ''d/a.PNG'', ''d/c.jpg'', ''d/e.gif'']"
    by code_simp
  from only_supported_names_are_processed [OF 1 2, of 8 5 True] 1 2 3 show ?thesis by blast
qed

subsection \<open>The fatal path\<close>

text \<open>
  Claim C10. When the folder is not a directory, or listing it raises \<^verbatim>\<open>OSError\<close>, and
  a progress callback is given, the run calls the callback exactly once, with current 0,
  total 1 and an error message, and returns \<^verbatim>\<open>None\<close>; the run has no other action.
\<close>

theorem fatal_path_reports_once:
  assumes "\<not> isdir w folder_path \<or> (\<exists>e. listdir w folder_path = Inl e)"
  shows "\<exists>msg. find_similar_images w folder_path hash_size similarity_threshold True
                 = ([Progress 0 1 msg], Inr None)
               \<and> (msg = FolderNotFound folder_path \<or> (\<exists>e. msg = ListingFailed e))"
proof (cases "isdir w folder_path")
  case False
  then show ?thesis by (simp add: find_similar_images_def emit_def)
next
  case True
  with assms obtain e where "listdir w folder_path = Inl e" by blast
  with True show ?thesis by (simp add: find_similar_images_def emit_def)
qed

theorem fatal_path_reports_once_witness:
  "\<not> isdir missing_folder ''nowhere''
   \<and> (\<exists>msg. find_similar_images missing_folder ''nowhere'' 8 5 True
               = ([Progress 0 1 msg], Inr None)
             \<and> (msg = FolderNotFound ''nowhere'' \<or> (\<exists>e. msg = ListingFailed e)))"
proof -
  have h: "\<not> isdir missing_folder ''nowhere''" by (simp add: missing_folder_def)
  then have "\<not> isdir missing_folder ''nowhere''
             \<or> (\<exists>e. listdir missing_folder ''nowhere'' = Inl e)" by simp
  from fatal_path_reports_once [OF this, of 8 5] h show ?thesis by simp
qed

end
